theory Spec2Isabelle
  imports Complex_Main "HOL-Library.Signed_Division" "HOL-Library.Multiset"
begin

unbundle bit_operations_syntax

section \<open>The Katz-inversion viewer of \<^verbatim>\<open>src/ftr/pkatz.c\<close>\<close>

text \<open>
  Conventions of the embedding.

  \<^item> A C \<^verbatim>\<open>float\<close> or \<^verbatim>\<open>double\<close> is a \<^typ>\<open>real\<close>. In the sign tests of the
    convex hull (\<^verbatim>\<open>det\<close>) and in the pixels of the segment traversal every float
    operation is followed by the rounding to binary32. In the rest of the float code
    (the inversion, the maps between view and window, the event handlers) rounding,
    overflow and the difference between the two precisions are not modelled: a
    statement below about that code is a statement about the exact arithmetic the
    code approximates.
  \<^item> The one float event that is written out everywhere is division by a zero divisor.
    IEEE arithmetic does not trap there, it produces a NaN or an infinity, and neither
    is a real number: \<open>fdiv\<close> returns \<open>None\<close>, and a function whose result would
    hold such a value returns \<open>None\<close>.
  \<^item> A C \<^verbatim>\<open>int\<close> is an \<^typ>\<open>int\<close> (the number of points of the viewer state
    is a \<^typ>\<open>nat\<close>). In the segment traversal every \<^verbatim>\<open>int\<close> operation that can
    leave the 32-bit range is tested; elsewhere the values are pixel positions, key
    codes and array indices, and wrap-around is not modelled.
  \<^item> A \<^verbatim>\<open>float[2]\<close> is a pair, an array of \<open>n\<close> points stored as \<open>2*n\<close>
    floats is a list of pairs.
\<close>

subsection \<open>Floats and points\<close>

type_synonym point = "real \<times> real"

definition fdiv :: "real \<Rightarrow> real \<Rightarrow> real option" where
  "fdiv a b = (if b = 0 then None else Some (a / b))"

definition hypot :: "real \<Rightarrow> real \<Rightarrow> real" where
  "hypot a b = sqrt (a\<^sup>2 + b\<^sup>2)"

text \<open>
  The rounding of binary32, for the sign tests of the convex hull and the pixels of
  the segment traversal. \<open>to_float\<close> rounds a real to the nearest \<^verbatim>\<open>float\<close>, a tie to the even significand: a significand of 24
  bits at the exponent of the argument, which runs from \<open>-126\<close> (the subnormal numbers)
  to \<open>127\<close>. It is the rounding of the machine for magnitudes below \<open>2\<^sup>1\<^sup>2\<^sup>8\<close>; overflow to
  an infinity is not modelled. \<^verbatim>\<open>lrint\<close> rounds to the nearest integer, a tie to the
  even one (the default rounding mode). Every float operation rounds its exact result
  once (\<^verbatim>\<open>FLT_EVAL_METHOD\<close> 0, no fused multiply-add). A quotient by zero is no number:
  \<open>None\<close>.
\<close>

definition lrint :: "real \<Rightarrow> int" where
  "lrint v =
     (let f = \<lfloor>v\<rfloor>; d = v - of_int f in
      if d < 1 / 2 then f else if 1 / 2 < d then f + 1
      else if even f then f else f + 1)"

definition float_exponent :: "real \<Rightarrow> int" where
  "float_exponent x = Max (insert (- 126) {e \<in> {- 126..127}. 2 powi e \<le> \<bar>x\<bar>})"

definition to_float :: "real \<Rightarrow> real" where
  "to_float x = (let u = 2 powi (float_exponent x - 23) in of_int (lrint (x / u)) * u)"

definition float_add :: "real \<Rightarrow> real \<Rightarrow> real" where
  "float_add a b = to_float (a + b)"

definition float_sub :: "real \<Rightarrow> real \<Rightarrow> real" where
  "float_sub a b = to_float (a - b)"

definition float_mul :: "real \<Rightarrow> real \<Rightarrow> real" where
  "float_mul a b = to_float (a * b)"

definition float_div :: "real \<Rightarrow> real \<Rightarrow> real option" where
  "float_div a b = (if b = 0 then None else Some (to_float (a / b)))"

subsection \<open>Section 3 of the source: the Katz inversion\<close>

text \<open>
  \<^verbatim>\<open>
  static void invert_point_flip(float y[2], float c[2], float R, float x[2])
  {
      float r = hypot(x[0] - c[0], x[1] - c[1]);
      y[0] = x[0] + 2*(R-r)*(x[0] - c[0])/r;
      y[1] = x[1] + 2*(R-r)*(x[1] - c[1])/r;
  }
  \<close>
  The output array \<open>y\<close> is the result. There is no test of \<open>r\<close> in the source.
\<close>

definition invert_point_flip :: "point \<Rightarrow> real \<Rightarrow> point \<Rightarrow> point option" where
  "invert_point_flip c R x =
     (let r = hypot (fst x - fst c) (snd x - snd c) in
      case fdiv (2 * (R - r) * (fst x - fst c)) r of
        None \<Rightarrow> None
      | Some d0 \<Rightarrow>
          (case fdiv (2 * (R - r) * (snd x - snd c)) r of
             None \<Rightarrow> None
           | Some d1 \<Rightarrow> Some (fst x + d0, snd x + d1)))"

definition invert_point :: "point \<Rightarrow> real \<Rightarrow> point \<Rightarrow> point option" where
  "invert_point c R x = invert_point_flip c R x"

subsection \<open>Section 4 of the source: coordinate conversions\<close>

text \<open>
  The fields of \<^verbatim>\<open>struct viewer_state\<close>. The one-letter fields \<^verbatim>\<open>n x y z m c r\<close>
  carry the prefix \<open>vs_\<close>, since a record field is a constant of the theory.
  The arrays \<open>x\<close> and \<open>y\<close> are lists of points; the array \<open>z\<close>, which the hull
  computation writes, is a store from indices to points.
\<close>

record viewer_state =
  vs_n :: nat
  vs_x :: "point list"
  vs_y :: "point list"
  vs_z :: "int \<Rightarrow> point"
  vs_m :: int
  vs_c :: point
  vs_r :: real
  offset :: point
  scale :: real
  dragging_window_point :: bool
  dragging_image_point :: bool
  dragging_background :: bool
  dragged_point :: int
  drag_handle :: "int \<times> int"
  interpolation_order :: int
  tile_plane :: bool
  show_horizon :: bool
  show_grid_points :: bool
  restrict_to_affine :: bool
  show_debug :: bool

text \<open>
  \<^verbatim>\<open>
  for (int k = 0; k < 2; k++) y[k] = e->offset[k] + e->scale * x[k];
  for (int k = 0; k < 2; k++) y[k] = ( x[k] - e->offset[k] ) / e->scale;
  \<close>
\<close>

definition map_view_to_window :: "viewer_state \<Rightarrow> point \<Rightarrow> point" where
  "map_view_to_window e x =
     (fst (offset e) + scale e * fst x, snd (offset e) + scale e * snd x)"

definition map_window_to_view :: "viewer_state \<Rightarrow> point \<Rightarrow> point option" where
  "map_window_to_view e x =
     (case fdiv (fst x - fst (offset e)) (scale e) of
        None \<Rightarrow> None
      | Some y0 \<Rightarrow>
          (case fdiv (snd x - snd (offset e)) (scale e) of
             None \<Rightarrow> None
           | Some y1 \<Rightarrow> Some (y0, y1)))"

subsection \<open>Section 3 of the source: the convex hull\<close>

text \<open>
  \<^verbatim>\<open>
  int p = (a[0] > b[0]) - (a[0] < b[0]);
  if (p) return p; else return ((a[1] > b[1]) - (a[1] < b[1]));
  \<close>
\<close>

definition compare_points_lexicographically :: "point \<Rightarrow> point \<Rightarrow> int" where
  "compare_points_lexicographically a b =
     (let p = (if fst a > fst b then 1 else 0) - (if fst a < fst b then 1 else 0) in
      if p \<noteq> 0 then p
      else (if snd a > snd b then 1 else 0) - (if snd a < snd b then 1 else 0))"

text \<open>
  \<^verbatim>\<open>qsort(x, n, 2*sizeof*x, compare_points_lexicographically)\<close> is the C library's
  sort. The comparator is a total order that returns \<open>0\<close> on equal points only, so
  every correct sort leaves the same array; an insertion sort driven by the comparator
  stands for it.
\<close>

fun insert_point :: "point \<Rightarrow> point list \<Rightarrow> point list" where
  "insert_point a [] = [a]"
| "insert_point a (b # bs) =
     (if compare_points_lexicographically a b \<le> 0 then a # b # bs
      else b # insert_point a bs)"

definition qsort_points :: "point list \<Rightarrow> point list" where
  "qsort_points xs = foldr insert_point xs []"

text \<open>
  \<^verbatim>\<open>
  float p[2] = {b[0] - a[0], b[1] - a[1]};
  float q[2] = {c[0] - a[0], c[1] - a[1]};
  return p[0] * q[1] - p[1] * q[0];
  \<close>
\<close>

text \<open>
  The hull computation tests the sign of \<^verbatim>\<open>det\<close>: each of its four differences, its
  two products and its final difference is rounded to \<^verbatim>\<open>float\<close>.
\<close>

definition det :: "point \<Rightarrow> point \<Rightarrow> point \<Rightarrow> real" where
  "det a b c =
     (let p = (float_sub (fst b) (fst a), float_sub (snd b) (snd a));
          q = (float_sub (fst c) (fst a), float_sub (snd c) (snd a))
      in float_sub (float_mul (fst p) (snd q)) (float_mul (snd p) (fst q)))"

text \<open>
  The output array \<open>y\<close> of \<^verbatim>\<open>do_the_andrew_parkour\<close> is a store from indices to
  points, and \<open>r\<close> is the C variable of that name, the number of hull points found
  so far. The function does not know the capacity of the buffer behind \<open>y\<close>, and
  neither does the model. The inner loop of both passes,
  \<^verbatim>\<open>while (r >= k && det(y+2*(r-2), y+2*(r-1), x+2*i) <= 0) r -= 1;\<close>
  with the literal \<open>2\<close> for \<open>k\<close> in the first pass:
\<close>

function hull_pop :: "(int \<Rightarrow> point) \<Rightarrow> int \<Rightarrow> int \<Rightarrow> point \<Rightarrow> int" where
  "hull_pop y k r p =
     (if r \<ge> k \<and> det (y (r - 2)) (y (r - 1)) p \<le> 0 then hull_pop y k (r - 1) p else r)"
  by pat_completeness auto
termination
  by (relation "measure (\<lambda>(y, k, r, p). nat (r - k + 1))") auto

declare hull_pop.simps [simp del]

text \<open>
  One pass over the points it visits, in the order it visits them: the body
  \<^verbatim>\<open>while ... ; y[2*r+0] = x[2*i+0]; y[2*r+1] = x[2*i+1]; r += 1;\<close>
  for each of them.
\<close>

fun hull_scan :: "int \<Rightarrow> point list \<Rightarrow> (int \<Rightarrow> point) \<times> int \<Rightarrow> (int \<Rightarrow> point) \<times> int" where
  "hull_scan k [] (y, r) = (y, r)"
| "hull_scan k (p # ps) (y, r) =
     (let r' = hull_pop y k r p in hull_scan k ps (y(r' := p), r' + 1))"

text \<open>
  \<^verbatim>\<open>do_the_andrew_parkour(y, x, n)\<close>, with the array \<open>x\<close> of \<open>n\<close> points as a list
  of length \<open>n\<close>. The first pass visits \<open>x[0], ..., x[n-1]\<close>, the second
  \<open>x[n-2], ..., x[0]\<close>. The result is the returned count, the output array, and the
  array \<open>x\<close> as the call leaves it (the source sorts it in place).
\<close>

definition do_the_andrew_parkour ::
  "(int \<Rightarrow> point) \<Rightarrow> point list \<Rightarrow> int \<times> (int \<Rightarrow> point) \<times> point list" where
  "do_the_andrew_parkour y x =
     (let xs = qsort_points x;
          (y1, r1) = hull_scan 2 xs (y, 0);
          k = r1 + 1;
          (y2, r2) = hull_scan k (rev (butlast xs)) (y1, r1)
      in (r2, y2, xs))"

text \<open>The points \<open>y[0], ..., y[m-1]\<close> of the output array, in order.\<close>

definition hull_points :: "int \<times> (int \<Rightarrow> point) \<times> point list \<Rightarrow> point list" where
  "hull_points res = (case res of (m, y, x) \<Rightarrow> map y [0..m - 1])"

text \<open>
  \<^verbatim>\<open>e->m = do_the_andrew_parkour(e->z, e->y, e->n);\<close> The hull of the first \<open>n\<close>
  points of \<open>y\<close> is written to \<open>z\<close>; the message printed when \<^verbatim>\<open>show_debug\<close> is set
  is not part of the state.
\<close>

definition compute_red_points_convex_hull :: "viewer_state \<Rightarrow> viewer_state" where
  "compute_red_points_convex_hull e =
     (case do_the_andrew_parkour (vs_z e) (take (vs_n e) (vs_y e)) of
        (m, z, y) \<Rightarrow> e\<lparr>vs_m := m, vs_z := z, vs_y := y @ drop (vs_n e) (vs_y e)\<rparr>)"

text \<open>
  Ascending lexicographic order on points, by \<open>x\<close> and then by \<open>y\<close>, as the spec words
  the order of the sort.
\<close>

definition lex_le :: "point \<Rightarrow> point \<Rightarrow> bool" where
  "lex_le a b = (fst a < fst b \<or> (fst a = fst b \<and> snd a \<le> snd b))"

subsection \<open>Section 7.1 of the source: drawing segments\<close>

text \<open>
  What \<^verbatim>\<open>traverse_segment\<close> produces is a sequence of pixels, and which pixels they are
  depends on how the float operations round and on the range of \<^verbatim>\<open>int\<close>. Both are
  written out.

  \<^item> An \<^verbatim>\<open>int\<close> has 32 bits. An \<^verbatim>\<open>int\<close> addition or subtraction whose result leaves
    the range is undefined behaviour: the model tests the result with \<open>int_ok\<close> and
    returns \<open>None\<close>.
  \<^item> Every float operation is followed by the rounding \<open>to_float\<close>; a conversion from
    \<^verbatim>\<open>int\<close> to \<^verbatim>\<open>float\<close>, explicit or by the usual arithmetic conversions, rounds as
    well. Every float of this function is an \<^verbatim>\<open>int\<close>, a quotient or a product of two,
    or a sum of such, of magnitude below \<open>2\<^sup>6\<^sup>3\<close>.
  \<^item> \<^verbatim>\<open>lrint\<close> returns a \<^verbatim>\<open>long\<close> of 64 bits. The callback takes an \<^verbatim>\<open>int\<close>: the
    conversion reduces the value modulo \<open>2\<^sup>3\<^sup>2\<close> into the range of \<^verbatim>\<open>int\<close>.
\<close>

definition int_ok :: "int \<Rightarrow> bool" where
  "int_ok v \<longleftrightarrow> - (2 ^ 31) \<le> v \<and> v < 2 ^ 31"

definition int_of_long :: "int \<Rightarrow> int" where
  "int_of_long v = (v + 2 ^ 31) mod 2 ^ 32 - 2 ^ 31"

definition float_of_int :: "int \<Rightarrow> real" where
  "float_of_int n = to_float (of_int n)"

text \<open>
  The callback \<^verbatim>\<open>void (*f)(int,int,void*)\<close> with its argument \<^verbatim>\<open>void *e\<close> is a
  function that takes the pixel and the state behind \<open>e\<close> and returns the new state.
  The two loops of \<^verbatim>\<open>traverse_segment\<close>, with the loop counter as last argument:
  \<^verbatim>\<open>
  for (int i = 0; i < qx-px; i++)  f(i+px, lrint(py + i*slope), e);
  for (int j = 0; j <= qy-py; j++) f(lrint(px + j*slope), j+py, e);
  \<close>
  In \<^verbatim>\<open>py + i*slope\<close> the counter is converted to \<^verbatim>\<open>float\<close> and multiplied, then
  \<^verbatim>\<open>py\<close> is converted and added. The differences \<^verbatim>\<open>qx-px\<close> and \<^verbatim>\<open>qy-py\<close> are
  computed, and tested, before the loops are entered. In the first loop
  \<open>i < qx - px\<close>, so that \<^verbatim>\<open>i++\<close> and \<^verbatim>\<open>i+px\<close> stay in range; in the second one
  \<open>j \<le> qy - py\<close>, so that \<^verbatim>\<open>j+py\<close> stays in range, and \<^verbatim>\<open>j++\<close> is tested.
\<close>

function horizontal_loop ::
  "int \<Rightarrow> int \<Rightarrow> int \<Rightarrow> real \<Rightarrow> (int \<Rightarrow> int \<Rightarrow> 's \<Rightarrow> 's) \<Rightarrow> 's \<Rightarrow> int \<Rightarrow> 's" where
  "horizontal_loop px py qx slope f e i =
     (if i < qx - px
      then horizontal_loop px py qx slope f
             (f (i + px)
                (int_of_long (lrint (float_add (float_of_int py)
                                       (float_mul (float_of_int i) slope)))) e)
             (i + 1)
      else e)"
  by pat_completeness auto
termination
  by (relation "measure (\<lambda>(px, py, qx, slope, f, e, i). nat (qx - px - i))") auto

declare horizontal_loop.simps [simp del]

function vertical_loop ::
  "int \<Rightarrow> int \<Rightarrow> int \<Rightarrow> real \<Rightarrow> (int \<Rightarrow> int \<Rightarrow> 's \<Rightarrow> 's) \<Rightarrow> 's \<Rightarrow> int \<Rightarrow> 's option" where
  "vertical_loop px py qy slope f e j =
     (if j \<le> qy - py
      then if int_ok (j + 1)
           then vertical_loop px py qy slope f
                  (f (int_of_long (lrint (float_add (float_of_int px)
                                            (float_mul (float_of_int j) slope))))
                     (j + py) e)
                  (j + 1)
           else None
      else Some e)"
  by pat_completeness auto
termination
  by (relation "measure (\<lambda>(px, py, qy, slope, f, e, j). nat (qy - py + 1 - j))") auto

declare vertical_loop.simps [simp del]

text \<open>
  \<^verbatim>\<open>
  if (px == qx && py == qy) f(px, py, e);
  else if (qx + qy < px + py) traverse_segment(qx, qy, px, py, f, e);
  else {
      if (qx - px > qy - py || px - qx > qy - py) {
          float slope = (qy - py)/(float)(qx - px); ...
      } else {
          float slope = (qx - px)/(float)(qy - py); ...
      }
  }
  \<close>
  The arguments are \<^verbatim>\<open>int\<close>s. The second operand of \<^verbatim>\<open>||\<close> is evaluated when the
  first is false. The result is \<open>None\<close> when an \<^verbatim>\<open>int\<close> operation overflows or a
  slope is a quotient by zero.
\<close>

function traverse_segment ::
  "int \<Rightarrow> int \<Rightarrow> int \<Rightarrow> int \<Rightarrow> (int \<Rightarrow> int \<Rightarrow> 's \<Rightarrow> 's) \<Rightarrow> 's \<Rightarrow> 's option" where
  "traverse_segment px py qx qy f e =
     (if \<not> (int_ok px \<and> int_ok py \<and> int_ok qx \<and> int_ok qy) then None
      else if px = qx \<and> py = qy then Some (f px py e)
      else if \<not> (int_ok (qx + qy) \<and> int_ok (px + py)) then None
      else if qx + qy < px + py then traverse_segment qx qy px py f e
      else if \<not> (int_ok (qx - px) \<and> int_ok (qy - py)) then None
      else if \<not> qx - px > qy - py \<and> \<not> int_ok (px - qx) then None
      else if qx - px > qy - py \<or> px - qx > qy - py then
        (case float_div (float_of_int (qy - py)) (float_of_int (qx - px)) of
           None \<Rightarrow> None
         | Some slope \<Rightarrow> Some (horizontal_loop px py qx slope f e 0))
      else
        (case float_div (float_of_int (qx - px)) (float_of_int (qy - py)) of
           None \<Rightarrow> None
         | Some slope \<Rightarrow> vertical_loop px py qy slope f e 0))"
  by pat_completeness auto
termination
  by (relation "measure (\<lambda>(px, py, qx, qy, f, e). if qx + qy < px + py then 1 else 0)") auto

declare traverse_segment.simps [simp del]

text \<open>
  The number of recursive calls \<^verbatim>\<open>traverse_segment\<close> makes on given endpoints: the
  same branches down to the recursive call, each counted instead of executed.
\<close>

function swap_calls :: "int \<Rightarrow> int \<Rightarrow> int \<Rightarrow> int \<Rightarrow> nat option" where
  "swap_calls px py qx qy =
     (if \<not> (int_ok px \<and> int_ok py \<and> int_ok qx \<and> int_ok qy) then None
      else if px = qx \<and> py = qy then Some 0
      else if \<not> (int_ok (qx + qy) \<and> int_ok (px + py)) then None
      else if qx + qy < px + py then map_option Suc (swap_calls qx qy px py)
      else Some 0)"
  by pat_completeness auto
termination
  by (relation "measure (\<lambda>(px, py, qx, qy). if qx + qy < px + py then 1 else 0)") auto

declare swap_calls.simps [simp del]

text \<open>A callback that records the pixels it is called with, in order.\<close>

definition record_pixel :: "int \<Rightarrow> int \<Rightarrow> (int \<times> int) list \<Rightarrow> (int \<times> int) list" where
  "record_pixel x y tr = tr @ [(x, y)]"

subsection \<open>The window and the constants of \<^verbatim>\<open>ftr.h\<close>\<close>

text \<open>
  \<^verbatim>\<open>struct FTR\<close> is declared in \<^verbatim>\<open>ftr.h\<close>, which is not among the sources; the
  fields the viewer uses are \<^verbatim>\<open>w\<close>, \<^verbatim>\<open>h\<close>, \<^verbatim>\<open>changed\<close> and \<^verbatim>\<open>userdata\<close>
  (the pixel buffer \<^verbatim>\<open>rgb\<close> is not part of this model). The viewer state that
  \<^verbatim>\<open>userdata\<close> points to is a field of the record.
\<close>

record FTR =
  ftr_w :: int
  ftr_h :: int
  changed :: int
  stop_requested :: bool
  userdata :: viewer_state

text \<open>
  Modelled from the spec: \<^verbatim>\<open>ftr_notify_the_desire_to_stop_this_loop\<close> is declared in
  \<^verbatim>\<open>ftr.h\<close> and defined in no source file at hand; the spec calls it the
  "request exit" signal that the core raises. It sets a flag of the window.
\<close>

definition ftr_notify_the_desire_to_stop_this_loop :: "FTR \<Rightarrow> int \<Rightarrow> FTR" where
  "ftr_notify_the_desire_to_stop_this_loop f retval = f\<lparr>stop_requested := True\<rparr>"

text \<open>
  The button and key codes are macros of \<^verbatim>\<open>ftr.h\<close>. The handlers take them as a
  parameter, and every theorem states what it needs of them.
\<close>

record ftr_constants =
  FTR_BUTTON_LEFT :: int
  FTR_BUTTON_RIGHT :: int
  FTR_BUTTON_DOWN :: int
  FTR_BUTTON_UP :: int
  FTR_KEY_DOWN :: int
  FTR_KEY_UP :: int
  FTR_KEY_RIGHT :: int
  FTR_KEY_LEFT :: int

definition DISK_RADIUS :: real where "DISK_RADIUS = 73 / 10"
definition ZOOM_FACTOR :: real where "ZOOM_FACTOR = 143 / 100"
definition RADIUS_FACTOR :: real where "RADIUS_FACTOR = 113 / 100"

subsection \<open>Sequences of conditional statements\<close>

text \<open>
  The handlers are sequences of statements \<^verbatim>\<open>if (c) S;\<close> on the window \<open>f\<close> and
  the viewer state \<open>e = f->userdata\<close>. \<open>when c S\<close> is one such statement, with the
  condition read in the state the statement starts in; \<open>exec\<close> runs statements in
  order; \<open>on_e\<close> lifts an update of the viewer state to the window that holds it.
  A statement yields \<open>None\<close> when it divides by zero.
\<close>

definition "when" :: "('s \<Rightarrow> bool) \<Rightarrow> ('s \<Rightarrow> 's option) \<Rightarrow> 's \<Rightarrow> 's option" where
  "when c S s = (if c s then S s else Some s)"

fun exec :: "('s \<Rightarrow> 's option) list \<Rightarrow> 's \<Rightarrow> 's option" where
  "exec [] s = Some s"
| "exec (S # Ss) s = (case S s of None \<Rightarrow> None | Some s' \<Rightarrow> exec Ss s')"

definition on_e :: "(viewer_state \<Rightarrow> viewer_state) \<Rightarrow> FTR \<Rightarrow> FTR option" where
  "on_e g f = Some (f\<lparr>userdata := g (userdata f)\<rparr>)"

definition on_e_opt :: "(viewer_state \<Rightarrow> viewer_state option) \<Rightarrow> FTR \<Rightarrow> FTR option" where
  "on_e_opt g f =
     (case g (userdata f) of None \<Rightarrow> None | Some e \<Rightarrow> Some (f\<lparr>userdata := e\<rparr>))"

subsection \<open>Sections 1 and 8 of the source: actions and events\<close>

definition center_view :: "FTR \<Rightarrow> FTR" where
  "center_view f =
     f\<lparr>userdata := (userdata f)
          \<lparr>vs_c := (100, 100), vs_r := 400,
           dragging_window_point := False, dragging_image_point := False,
           dragged_point := - 1, dragging_background := False,
           offset := (0, 0), scale := 1,
           interpolation_order := 0, tile_plane := False, show_horizon := False,
           show_grid_points := False, restrict_to_affine := False, show_debug := False\<rparr>,
       changed := 1\<rparr>"

definition change_view_offset :: "viewer_state \<Rightarrow> real \<Rightarrow> real \<Rightarrow> viewer_state" where
  "change_view_offset e dx dy = e\<lparr>offset := (fst (offset e) + dx, snd (offset e) + dy)\<rparr>"

text \<open>
  \<^verbatim>\<open>
  float center[2], X[2] = {x, y};
  map_window_to_view(e, center, X);
  e->scale *= fac;
  for (int p = 0; p < 2; p++) e->offset[p] = -center[p]*e->scale + X[p];
  \<close>
\<close>

definition change_view_scale :: "viewer_state \<Rightarrow> int \<Rightarrow> int \<Rightarrow> real \<Rightarrow> viewer_state option" where
  "change_view_scale e x y fac =
     (let X = (of_int x, of_int y) in
      case map_window_to_view e X of
        None \<Rightarrow> None
      | Some center \<Rightarrow>
          (let e1 = e\<lparr>scale := scale e * fac\<rparr> in
           Some (e1\<lparr>offset := (- fst center * scale e1 + fst X,
                              - snd center * scale e1 + snd X)\<rparr>)))"

definition change_radius :: "viewer_state \<Rightarrow> int \<Rightarrow> int \<Rightarrow> real \<Rightarrow> viewer_state" where
  "change_radius e x y fac = e\<lparr>vs_r := vs_r e * fac\<rparr>"

definition drag_point_in_window_domain :: "viewer_state \<Rightarrow> int \<Rightarrow> int \<Rightarrow> viewer_state option" where
  "drag_point_in_window_domain e x y =
     (case map_window_to_view e (of_int x, of_int y) of
        None \<Rightarrow> None
      | Some c' \<Rightarrow> Some (e\<lparr>vs_c := c'\<rparr>))"

text \<open>
  \<^verbatim>\<open>
  map_view_to_window(e, P, e->c);
  if (hypot(P[0] - x, P[1] - y) < 2 + DISK_RADIUS) return 0;
  return -1;
  \<close>
\<close>

definition hit_point :: "viewer_state \<Rightarrow> real \<Rightarrow> real \<Rightarrow> int" where
  "hit_point e x y =
     (let P = map_view_to_window e (vs_c e) in
      if hypot (fst P - x) (snd P - y) < 2 + DISK_RADIUS then 0 else - 1)"

text \<open>
  The key handler. The character constants are their ASCII codes:
  \<open>'q' = 113\<close>, \<open>'c' = 99\<close>, \<open>'j' = 106\<close>, \<open>'k' = 107\<close>, \<open>'h' = 104\<close>, \<open>'l' = 108\<close>,
  \<open>'+' = 43\<close>, \<open>'-' = 45\<close>, \<open>'p' = 112\<close>, \<open>'w' = 119\<close>, \<open>'0' = 48\<close>, \<open>'9' = 57\<close>,
  \<open>'.' = 46\<close>, \<open>'d' = 100\<close>. The integer quotients \<^verbatim>\<open>f->w/2\<close> and \<^verbatim>\<open>f->h/2\<close>
  truncate towards zero. The handler returns at once on \<open>'q'\<close>; its last two
  statements are
  \<^verbatim>\<open>e->dragging_window_point = e->dragging_image_point = false; f->changed = 1;\<close>
\<close>

definition event_key :: "ftr_constants \<Rightarrow> FTR \<Rightarrow> int \<Rightarrow> int \<Rightarrow> int \<Rightarrow> int \<Rightarrow> FTR option" where
  "event_key K f k m x y =
     (if k = 113 then Some (ftr_notify_the_desire_to_stop_this_loop f 0)
      else exec
        [when (\<lambda>_. k = 99) (\<lambda>f. Some (center_view f)),
         when (\<lambda>_. k = 106) (on_e (\<lambda>e. change_view_offset e 0 (- 10))),
         when (\<lambda>_. k = 107) (on_e (\<lambda>e. change_view_offset e 0 10)),
         when (\<lambda>_. k = 104) (on_e (\<lambda>e. change_view_offset e 10 0)),
         when (\<lambda>_. k = 108) (on_e (\<lambda>e. change_view_offset e (- 10) 0)),
         when (\<lambda>_. k = FTR_KEY_DOWN K) (on_e (\<lambda>e. change_view_offset e 0 (- 100))),
         when (\<lambda>_. k = FTR_KEY_UP K) (on_e (\<lambda>e. change_view_offset e 0 100)),
         when (\<lambda>_. k = FTR_KEY_RIGHT K) (on_e (\<lambda>e. change_view_offset e (- 100) 0)),
         when (\<lambda>_. k = FTR_KEY_LEFT K) (on_e (\<lambda>e. change_view_offset e 100 0)),
         when (\<lambda>_. k = 43)
           (\<lambda>f. on_e_opt (\<lambda>e. change_view_scale e (ftr_w f sdiv 2) (ftr_h f sdiv 2)
                                ZOOM_FACTOR) f),
         when (\<lambda>_. k = 45)
           (\<lambda>f. on_e_opt (\<lambda>e. change_view_scale e (ftr_w f sdiv 2) (ftr_h f sdiv 2)
                                (1 / ZOOM_FACTOR)) f),
         when (\<lambda>_. k = 112) (on_e (\<lambda>e. e\<lparr>tile_plane := \<not> tile_plane e\<rparr>)),
         when (\<lambda>_. k = 119) (on_e (\<lambda>e. e\<lparr>show_horizon := \<not> show_horizon e\<rparr>)),
         when (\<lambda>_. 48 \<le> k \<and> k \<le> 57) (on_e (\<lambda>e. e\<lparr>interpolation_order := k - 48\<rparr>)),
         when (\<lambda>_. k = 46) (on_e (\<lambda>e. e\<lparr>show_grid_points := \<not> show_grid_points e\<rparr>)),
         when (\<lambda>_. k = 100) (on_e (\<lambda>e. e\<lparr>show_debug := \<not> show_debug e\<rparr>)),
         on_e (\<lambda>e. e\<lparr>dragging_window_point := False, dragging_image_point := False\<rparr>),
         (\<lambda>f. Some (f\<lparr>changed := 1\<rparr>))] f)"

definition event_resize :: "FTR \<Rightarrow> int \<Rightarrow> int \<Rightarrow> int \<Rightarrow> int \<Rightarrow> FTR option" where
  "event_resize f k m x y = Some (f\<lparr>changed := 1\<rparr>)"

text \<open>
  The button handler. \<^verbatim>\<open>int p = hit_point(e, x, y);\<close> is computed once, before the
  first statement; the fourth, sixth and seventh statements call \<^verbatim>\<open>hit_point\<close>
  again, in the state they start in.
\<close>

definition event_button :: "ftr_constants \<Rightarrow> FTR \<Rightarrow> int \<Rightarrow> int \<Rightarrow> int \<Rightarrow> int \<Rightarrow> FTR option" where
  "event_button K f k m x y =
     (let p = hit_point (userdata f) (of_int x) (of_int y) in
      exec
        [when (\<lambda>_. k = FTR_BUTTON_LEFT K \<and> p \<ge> 0)
           (on_e (\<lambda>e. e\<lparr>dragged_point := p, dragging_window_point := True\<rparr>)),
         when (\<lambda>f. dragging_window_point (userdata f) \<and> k = - FTR_BUTTON_LEFT K)
           (exec
             [on_e_opt (\<lambda>e. drag_point_in_window_domain e x y),
              on_e (\<lambda>e. e\<lparr>dragging_window_point := False, dragged_point := - 1\<rparr>)]),
         when (\<lambda>_. k = FTR_BUTTON_RIGHT K \<and> p \<ge> 0)
           (on_e (\<lambda>e. e\<lparr>dragged_point := p, dragging_image_point := True\<rparr>)),
         when (\<lambda>f. k = FTR_BUTTON_LEFT K \<and> hit_point (userdata f) (of_int x) (of_int y) < 0)
           (on_e (\<lambda>e. e\<lparr>drag_handle := (x, y), dragging_background := True\<rparr>)),
         when (\<lambda>f. dragging_background (userdata f) \<and> k = - FTR_BUTTON_LEFT K)
           (on_e (\<lambda>e.
              let dx = x - fst (drag_handle e); dy = y - snd (drag_handle e) in
              (change_view_offset e (of_int dx) (of_int dy))\<lparr>dragging_background := False\<rparr>)),
         when (\<lambda>_. k = FTR_BUTTON_DOWN K)
           (\<lambda>f. if hit_point (userdata f) (of_int x) (of_int y) < 0
                then on_e_opt (\<lambda>e. change_view_scale e x y ZOOM_FACTOR) f
                else on_e (\<lambda>e. change_radius e x y RADIUS_FACTOR) f),
         when (\<lambda>_. k = FTR_BUTTON_UP K)
           (\<lambda>f. if hit_point (userdata f) (of_int x) (of_int y) < 0
                then on_e_opt (\<lambda>e. change_view_scale e x y (1 / ZOOM_FACTOR)) f
                else on_e (\<lambda>e. change_radius e x y (1 / RADIUS_FACTOR)) f),
         (\<lambda>f. Some (f\<lparr>changed := 1\<rparr>))] f)"

text \<open>
  The motion handler. In \<^verbatim>\<open>e->dragging_window_point && m & FTR_BUTTON_LEFT\<close> the
  bitwise \<^verbatim>\<open>&\<close> binds tighter than \<^verbatim>\<open>&&\<close>.
\<close>

definition event_motion :: "ftr_constants \<Rightarrow> FTR \<Rightarrow> int \<Rightarrow> int \<Rightarrow> int \<Rightarrow> int \<Rightarrow> FTR option" where
  "event_motion K f b m x y =
     exec
       [when (\<lambda>f. dragging_window_point (userdata f) \<and> m AND FTR_BUTTON_LEFT K \<noteq> 0)
          (exec
            [on_e_opt (\<lambda>e. drag_point_in_window_domain e x y),
             (\<lambda>f. Some (f\<lparr>changed := 1\<rparr>))]),
        when (\<lambda>f. dragging_background (userdata f) \<and> m AND FTR_BUTTON_LEFT K \<noteq> 0)
          (exec
            [on_e (\<lambda>e.
               let dx = x - fst (drag_handle e); dy = y - snd (drag_handle e) in
               (change_view_offset e (of_int dx) (of_int dy))\<lparr>drag_handle := (x, y)\<rparr>),
             (\<lambda>f. Some (f\<lparr>changed := 1\<rparr>))])] f"

text \<open>
  The events the window delivers to the three handlers, one step of the viewer, and a
  run over a sequence of events.
\<close>

datatype event =
  Key int int int int
| Button int int int int
| Motion int int int int

fun step :: "ftr_constants \<Rightarrow> FTR \<Rightarrow> event \<Rightarrow> FTR option" where
  "step K f (Key k m x y) = event_key K f k m x y"
| "step K f (Button k m x y) = event_button K f k m x y"
| "step K f (Motion b m x y) = event_motion K f b m x y"

fun run :: "ftr_constants \<Rightarrow> FTR \<Rightarrow> event list \<Rightarrow> FTR option" where
  "run K f [] = Some f"
| "run K f (ev # evs) = (case step K f ev of None \<Rightarrow> None | Some f' \<Rightarrow> run K f' evs)"

text \<open>
  The state in which \<^verbatim>\<open>main_pkatz\<close> enters the event loop: an 800 by 600 window,
  the points read from the input, and \<^verbatim>\<open>center_view\<close> applied. The fields that
  \<^verbatim>\<open>main_pkatz\<close> leaves uninitialised are those of the argument \<open>e0\<close>.
\<close>

definition main_state :: "point list \<Rightarrow> viewer_state \<Rightarrow> FTR" where
  "main_state pts e0 =
     center_view
       \<lparr>ftr_w = 800, ftr_h = 600, changed = 0, stop_requested = False,
        userdata = e0\<lparr>vs_n := length pts, vs_x := pts\<rparr>\<rparr>"

text \<open>
  A viewer state with every field zero, the initial window with the three drag flags
  set, and the three drag flags of a window.
\<close>

definition zero_state :: viewer_state where
  "zero_state =
     \<lparr>vs_n = 0, vs_x = [], vs_y = [], vs_z = (\<lambda>i. (0, 0)), vs_m = 0,
      vs_c = (0, 0), vs_r = 0, offset = (0, 0), scale = 0,
      dragging_window_point = False, dragging_image_point = False,
      dragging_background = False, dragged_point = 0, drag_handle = (0, 0),
      interpolation_order = 0, tile_plane = False, show_horizon = False,
      show_grid_points = False, restrict_to_affine = False, show_debug = False\<rparr>"

definition all_dragging :: FTR where
  "all_dragging =
     (main_state [] zero_state)
       \<lparr>userdata := (userdata (main_state [] zero_state))
          \<lparr>dragging_window_point := True, dragging_image_point := True,
           dragging_background := True\<rparr>\<rparr>"

definition drag_flags :: "FTR \<Rightarrow> bool \<times> bool \<times> bool" where
  "drag_flags f =
     (dragging_window_point (userdata f), dragging_image_point (userdata f),
      dragging_background (userdata f))"

text \<open>
  The window point \<^verbatim>\<open>(f->w/2, f->h/2)\<close> that the key handler passes to
  \<^verbatim>\<open>change_view_scale\<close>, and the number of drag flags that are set in \<open>f'\<close> and were
  not set in \<open>f\<close>.
\<close>

definition window_center :: "FTR \<Rightarrow> point" where
  "window_center f = (of_int (ftr_w f sdiv 2), of_int (ftr_h f sdiv 2))"

definition turned_on :: "FTR \<Rightarrow> FTR \<Rightarrow> nat" where
  "turned_on f f' =
     of_bool (\<not> dragging_window_point (userdata f) \<and> dragging_window_point (userdata f'))
     + of_bool (\<not> dragging_image_point (userdata f) \<and> dragging_image_point (userdata f'))
     + of_bool (\<not> dragging_background (userdata f) \<and> dragging_background (userdata f'))"

text \<open>
  One assignment of the constants, for the examples: positive button codes, all
  different, and arrow key codes above the ASCII range.
\<close>

definition example_constants :: ftr_constants where
  "example_constants =
     \<lparr>FTR_BUTTON_LEFT = 256, FTR_BUTTON_RIGHT = 1024, FTR_BUTTON_DOWN = 4096,
      FTR_BUTTON_UP = 2048, FTR_KEY_DOWN = 1103, FTR_KEY_UP = 1101,
      FTR_KEY_RIGHT = 1102, FTR_KEY_LEFT = 1100\<rparr>"

section \<open>Properties\<close>

subsection \<open>The inversion map\<close>

lemma hypot_zero_iff: "hypot a b = 0 \<longleftrightarrow> a = 0 \<and> b = 0"
  by (simp add: hypot_def)

lemma hypot_axis: "hypot a 0 = \<bar>a\<bar>"
  by (simp add: hypot_def)

lemma hypot_3_4: "hypot 3 4 = 5"
proof -
  have "(3::real)\<^sup>2 + 4\<^sup>2 = 5\<^sup>2" by simp
  then have "hypot 3 4 = sqrt (5\<^sup>2)" unfolding hypot_def by presburger
  then show ?thesis by simp
qed

text \<open>
  C1. Whenever the distance \<open>r\<close> from \<open>p\<close> to the pole \<open>c\<close> is not zero, the inversion
  returns \<open>p + 2 * (R - r) * (p - c) / r\<close> in each coordinate; with pole \<open>(0,0)\<close>,
  radius \<open>10\<close> and \<open>p = (20,0)\<close> the result is \<open>(0,0)\<close>.
\<close>

theorem invert_point_formula:
  "(hypot (fst p - fst c) (snd p - snd c) \<noteq> 0 \<longrightarrow>
      invert_point c R p =
        Some (fst p + 2 * (R - hypot (fst p - fst c) (snd p - snd c)) * (fst p - fst c)
                        / hypot (fst p - fst c) (snd p - snd c),
              snd p + 2 * (R - hypot (fst p - fst c) (snd p - snd c)) * (snd p - snd c)
                        / hypot (fst p - fst c) (snd p - snd c)))
   \<and> invert_point (0, 0) 10 (20, 0) = Some (0, 0)"
  by (simp add: invert_point_def invert_point_flip_def fdiv_def Let_def hypot_axis)

theorem invert_point_formula_witness:
  "hypot (fst ((3, 4)::point) - fst ((0, 0)::point)) (snd ((3, 4)::point) - snd ((0, 0)::point)) \<noteq> 0
   \<and> invert_point (0, 0) 10 (3, 4) = Some (9, 12)"
  using invert_point_formula [of "(3, 4)" "(0, 0)" 10] by (simp add: hypot_3_4)

text \<open>
  C2, as the source has it. The inversion has no guard for \<open>r = 0\<close>: applied to the
  pole itself, for every pole \<open>c\<close> and radius \<open>R\<close>, it divides \<open>0\<close> by \<open>0\<close> in both
  coordinates and yields no point, where the claim has it return \<open>p\<close>.
\<close>

theorem invert_point_at_pole_undefined: "invert_point c R c = None"
  by (simp add: invert_point_def invert_point_flip_def fdiv_def Let_def hypot_def)

theorem invert_point_at_pole_counterexample:
  "invert_point (3, 4) 10 (3, 4) \<noteq> Some (3, 4)"
  by (simp add: invert_point_def invert_point_flip_def fdiv_def Let_def hypot_def)

subsection \<open>The coordinate conversions\<close>

text \<open>
  C6. For a transform with \<open>scale \<noteq> 0\<close>, mapping a view point to the window and back
  returns the point.
\<close>

theorem window_view_round_trip:
  "scale e \<noteq> 0 \<Longrightarrow> map_window_to_view e (map_view_to_window e p) = Some p"
  by (simp add: map_window_to_view_def map_view_to_window_def fdiv_def)

theorem window_view_round_trip_witness:
  "scale (zero_state\<lparr>offset := (5, 7), scale := 2\<rparr>) \<noteq> 0
   \<and> map_window_to_view (zero_state\<lparr>offset := (5, 7), scale := 2\<rparr>)
        (map_view_to_window (zero_state\<lparr>offset := (5, 7), scale := 2\<rparr>) (3, 4)) = Some (3, 4)
   \<and> map_view_to_window (zero_state\<lparr>offset := (5, 7), scale := 2\<rparr>) (3, 4) = (11, 15)"
  using window_view_round_trip [of "zero_state\<lparr>offset := (5, 7), scale := 2\<rparr>" "(3, 4)"]
  by (simp add: map_view_to_window_def)

subsection \<open>The segment traversal\<close>

text \<open>The exponent of a number in the float range, and the rounding at that exponent.\<close>

lemma finite_exponents:
  "finite (insert (- 126) {e \<in> {- 126..127::int}. P e})"
proof -
  have "{e \<in> {- 126..127::int}. P e} \<subseteq> {- 126..127}" by blast
  then have "finite {e \<in> {- 126..127::int}. P e}" by (rule finite_subset) simp
  then show ?thesis by simp
qed

lemma float_exponent_eqI:
  assumes "- 126 \<le> e" "e \<le> 127" "2 powi e \<le> \<bar>x\<bar>" "\<bar>x\<bar> < 2 powi (e + 1)"
  shows "float_exponent x = e"
  unfolding float_exponent_def
proof (rule Max_eqI)
  show "finite (insert (- 126) {e \<in> {- 126..127}. 2 powi e \<le> \<bar>x\<bar>})"
    by (rule finite_exponents)
  show "e \<in> insert (- 126) {e \<in> {- 126..127}. 2 powi e \<le> \<bar>x\<bar>}"
    using assms by simp
  fix y assume "y \<in> insert (- 126) {e \<in> {- 126..127}. 2 powi e \<le> \<bar>x\<bar>}"
  then consider "y = - 126" | "2 powi y \<le> \<bar>x\<bar>" by auto
  then show "y \<le> e"
  proof cases
    case 1
    then show ?thesis using assms(1) by simp
  next
    case 2
    with assms(4) have "(2::real) powi y < 2 powi (e + 1)" by linarith
    have "y < e + 1"
    proof (rule ccontr)
      assume "\<not> y < e + 1"
      then have "e + 1 \<le> y" by simp
      then have "(2::real) powi (e + 1) \<le> 2 powi y"
        by (rule power_int_increasing) simp
      with \<open>2 powi y < 2 powi (e + 1)\<close> show False by simp
    qed
    then show ?thesis by simp
  qed
qed

lemma float_exponent_cases:
  "float_exponent x = - 126 \<or> (- 126 \<le> float_exponent x \<and> float_exponent x \<le> 127 \<and> 2 powi (float_exponent x) \<le> \<bar>x\<bar>)"
proof -
  have "float_exponent x \<in> insert (- 126) {e \<in> {- 126..127}. 2 powi e \<le> \<bar>x\<bar>}"
    unfolding float_exponent_def by (rule Max_in) (rule finite_exponents, simp)
  then show ?thesis by auto
qed

lemma lrint_of_int: "lrint (of_int n) = n"
  by (simp add: lrint_def)

lemma to_float_0: "to_float 0 = 0"
  by (simp add: to_float_def lrint_def)


lemma to_float_16777217: "to_float 16777217 = 16777216"
proof -
  have "float_exponent 16777217 = 24"
    by (rule float_exponent_eqI) simp_all
  then show ?thesis
    by (simp add: to_float_def lrint_def)
qed

lemma to_float_of_int:
  assumes "\<bar>n\<bar> \<le> 2 ^ 24"
  shows "to_float (of_int n) = of_int n"
proof -
  let ?E = "float_exponent (of_int n)"
  consider "?E \<le> 23" | "23 < ?E" "2 powi ?E \<le> \<bar>of_int n :: real\<bar>"
    using float_exponent_cases [of "of_int n"] by force
  then show ?thesis
  proof cases
    case 1
    define k where "k = nat (23 - ?E)"
    have k: "(2::real) powi (23 - ?E) = 2 ^ k"
      using 1 by (simp add: k_def power_int_nonneg_exp)
    have "(2::real) powi (?E - 23) = inverse (2 powi (23 - ?E))"
      using power_int_minus [of "2::real" "23 - ?E"] by simp
    then have u: "(2::real) powi (?E - 23) = inverse (2 ^ k)"
      using k by simp
    have "of_int n / (2::real) powi (?E - 23) = of_int (n * 2 ^ k)"
      by (simp add: u divide_inverse)
    then have "lrint (of_int n / (2::real) powi (?E - 23)) = n * 2 ^ k"
      by (simp only: lrint_of_int)
    then show ?thesis
      by (simp add: to_float_def u)
  next
    case 2
    have "\<bar>of_int n :: real\<bar> = of_int \<bar>n\<bar>" by simp
    also have "\<dots> \<le> of_int (2 ^ 24)" using assms by (simp only: of_int_le_iff)
    finally have "\<bar>of_int n :: real\<bar> \<le> 2 ^ 24" by simp
    with 2(2) have "(2::real) powi ?E \<le> 2 powi 24" by simp
    then have "?E \<le> 24"
      by (rule power_int_le_imp_le_exp [rotated]) simp_all
    with 2(1) have E: "?E = 24" by simp
    have "(2::real) ^ 24 \<le> \<bar>of_int n\<bar>" using 2(2) unfolding E by simp
    then have "2 ^ 24 \<le> \<bar>n\<bar>"
      by (metis of_int_abs of_int_le_iff of_int_numeral of_int_power)
    with assms have "\<bar>n\<bar> = 2 ^ 24" by simp
    then have "n = 16777216 \<or> n = - 16777216" by (simp add: abs_if split: if_splits)
    then show ?thesis
      using E by (auto simp: to_float_def lrint_def)
  qed
qed

lemma to_float_numeral:
  "numeral k \<le> (16777216::int) \<Longrightarrow> to_float (numeral k) = numeral k"
  using to_float_of_int [of "numeral k"] by simp

lemma to_float_neg_numeral:
  "numeral k \<le> (16777216::int) \<Longrightarrow> to_float (- numeral k) = - numeral k"
  using to_float_of_int [of "- numeral k"] by simp

lemma to_float_1: "to_float 1 = 1"
  using to_float_of_int [of 1] by simp

lemma to_float_neg_1: "to_float (- 1) = - 1"
  using to_float_of_int [of "- 1"] by simp

lemmas float_small = float_sub_def float_mul_def to_float_0 to_float_1 to_float_neg_1
  to_float_numeral to_float_neg_numeral

lemma lrint_near:
  assumes "\<bar>v - of_int n\<bar> < 1 / 2"
  shows "lrint v = n"
proof (cases "of_int n \<le> v")
  case True
  with assms have "\<lfloor>v\<rfloor> = n" by (intro floor_unique) (simp_all add: abs_less_iff)
  with assms True show ?thesis by (simp add: lrint_def Let_def abs_less_iff)
next
  case False
  with assms have "\<lfloor>v\<rfloor> = n - 1" by (intro floor_unique) (simp_all add: abs_less_iff)
  with assms False show ?thesis by (simp add: lrint_def Let_def abs_less_iff)
qed

lemma lrint_err: "\<bar>of_int (lrint v) - v\<bar> \<le> 1 / 2"
proof -
  have "of_int \<lfloor>v\<rfloor> \<le> v" "v < of_int \<lfloor>v\<rfloor> + 1" by linarith+
  then show ?thesis
    by (auto simp: lrint_def Let_def abs_le_iff)
qed

lemma to_float_err: "\<bar>to_float x - x\<bar> \<le> 2 powi (float_exponent x - 23) / 2"
proof -
  define u :: real where "u = 2 powi (float_exponent x - 23)"
  have u: "0 < u" by (simp add: u_def)
  have "to_float x - x = u * (of_int (lrint (x / u)) - x / u)"
    using u by (simp add: to_float_def u_def [symmetric] algebra_simps)
  then have "\<bar>to_float x - x\<bar> = u * \<bar>of_int (lrint (x / u)) - x / u\<bar>"
    using u by (simp add: abs_mult)
  also have "\<dots> \<le> u * (1 / 2)"
    using u lrint_err [of "x / u"] by (intro mult_left_mono) simp_all
  finally show ?thesis by (simp add: u_def)
qed

lemma to_float_rel: "\<bar>to_float x - x\<bar> \<le> \<bar>x\<bar> / 2 ^ 24 + 1 / 2 ^ 150"
proof -
  let ?E = "float_exponent x"
  have split: "(2::real) powi (?E - 23) / 2 = 2 powi ?E / 2 ^ 24"
    using power_int_diff [of "2::real" ?E 23] by simp
  consider "?E = - 126" | "2 powi ?E \<le> \<bar>x\<bar>"
    using float_exponent_cases [of x] by blast
  then have "(2::real) powi (?E - 23) / 2 \<le> \<bar>x\<bar> / 2 ^ 24 + 1 / 2 ^ 150"
  proof cases
    case 1
    have "(2::real) powi (?E - 23) / 2 = 1 / 2 ^ 150"
      unfolding 1 by (simp add: power_int_minus_divide)
    then show ?thesis by simp
  next
    case 2
    then have "(2::real) powi ?E / 2 ^ 24 \<le> \<bar>x\<bar> / 2 ^ 24"
      by (simp add: divide_right_mono)
    then show ?thesis unfolding split by simp
  qed
  with to_float_err [of x] show ?thesis by linarith
qed


lemma horizontal_loop_fold:
  "horizontal_loop px py qx slope f e i =
     fold (\<lambda>i. f (i + px)
             (int_of_long (lrint (float_add (float_of_int py)
                                    (float_mul (float_of_int i) slope)))))
       [i..qx - px - 1] e"
proof (induction px py qx slope f e i rule: horizontal_loop.induct)
  case (1 px py qx slope f e i)
  show ?case
  proof (cases "i < qx - px")
    case True
    then have "[i..qx - px - 1] = i # [i + 1..qx - px - 1]"
      by (simp add: upto_rec1)
    with True 1 show ?thesis
      by (subst horizontal_loop.simps) simp
  next
    case False
    then show ?thesis
      by (subst horizontal_loop.simps) simp
  qed
qed

lemma vertical_loop_fold:
  assumes "0 \<le> j" "qy - py + 1 < 2 ^ 31"
  shows "vertical_loop px py qy slope f e j =
     Some (fold (\<lambda>j. f (int_of_long (lrint (float_add (float_of_int px)
                                              (float_mul (float_of_int j) slope))))
                     (j + py))
             [j..qy - py] e)"
  using assms
proof (induction px py qy slope f e j rule: vertical_loop.induct)
  case (1 px py qy slope f e j)
  show ?case
  proof (cases "j \<le> qy - py")
    case True
    have ok: "int_ok (j + 1)"
      using True "1.prems" by (simp add: int_ok_def)
    have up: "[j..qy - py] = j # [j + 1..qy - py]"
      using True by (simp add: upto_rec1)
    have "0 \<le> j + 1" using "1.prems" by simp
    note IH = "1.IH" [OF True ok this "1.prems"(2)]
    show ?thesis
      by (subst vertical_loop.simps) (simp add: True ok IH up)
  next
    case False
    then show ?thesis
      by (subst vertical_loop.simps) simp
  qed
qed

lemma fold_record_pixel:
  "fold (\<lambda>i. record_pixel (a i) (b i)) is tr = tr @ map (\<lambda>i. (a i, b i)) is"
  by (induction "is" arbitrary: tr) (simp_all add: record_pixel_def)

lemma map_add_upto: "map (\<lambda>i. i + (a::int)) [0..n] = [a..a + n]"
proof (induction n rule: int_induct[where k = "-1"])
  case base
  then show ?case by simp
next
  case (step1 i)
  then show ?case by (simp add: upto_rec2 add.assoc)
next
  case (step2 i)
  then show ?case by simp
qed

lemma int_ok_bounded:
  assumes "\<bar>a\<bar> < 2 ^ 30" "\<bar>b\<bar> < 2 ^ 30"
  shows "int_ok a" "int_ok (a + b)" "int_ok (a - b)"
  using assms by (simp_all add: int_ok_def abs_less_iff)

lemma float_of_int_pos:
  assumes "0 < n"
  shows "0 < float_of_int n"
proof -
  have "1 \<le> (of_int n :: real)" using assms by simp
  with to_float_rel [of "of_int n"] show ?thesis
    by (simp add: float_of_int_def abs_le_iff)
qed

lemma normalised_horizontal:
  fixes px py qx qy :: int
  assumes "\<not> qx + qy < px + py" "qx - px > qy - py \<or> px - qx > qy - py"
  shows "0 < qx - px"
  using assms by linarith

lemma normalised_vertical:
  fixes px py qx qy :: int
  assumes "\<not> (px = qx \<and> py = qy)" "\<not> qx + qy < px + py"
    "\<not> (qx - px > qy - py \<or> px - qx > qy - py)"
  shows "0 < qy - py"
  using assms by linarith

lemma swap_calls_bounded:
  assumes "\<bar>px\<bar> < 2 ^ 30" "\<bar>py\<bar> < 2 ^ 30" "\<bar>qx\<bar> < 2 ^ 30" "\<bar>qy\<bar> < 2 ^ 30"
  shows "swap_calls px py qx qy = Some (if qx + qy < px + py then 1 else 0)"
proof -
  note ok = int_ok_bounded [OF assms(1) assms(2)] int_ok_bounded [OF assms(3) assms(4)]
    int_ok_bounded(1) [OF assms(2) assms(1)] int_ok_bounded(1) [OF assms(4) assms(3)]
  show ?thesis
    apply (subst swap_calls.simps)
    apply (subst swap_calls.simps)
    using ok apply auto
    done
qed

lemma traverse_segment_swap:
  assumes "\<bar>px\<bar> < 2 ^ 30" "\<bar>py\<bar> < 2 ^ 30" "\<bar>qx\<bar> < 2 ^ 30" "\<bar>qy\<bar> < 2 ^ 30"
    "qx + qy < px + py"
  shows "traverse_segment px py qx qy f e = traverse_segment qx qy px py f e"
proof -
  note ok = int_ok_bounded [OF assms(1) assms(2)] int_ok_bounded [OF assms(3) assms(4)]
    int_ok_bounded(1) [OF assms(2) assms(1)] int_ok_bounded(1) [OF assms(4) assms(3)]
  show ?thesis
    using ok assms(5) by (subst traverse_segment.simps) auto
qed

lemma traverse_segment_point:
  assumes "\<bar>px\<bar> < 2 ^ 30" "\<bar>py\<bar> < 2 ^ 30"
  shows "traverse_segment px py px py f e = Some (f px py e)"
  using int_ok_bounded(1) [OF assms(1) assms(2)] int_ok_bounded(1) [OF assms(2) assms(1)]
  by (subst traverse_segment.simps) simp

lemma traverse_segment_horizontal:
  assumes "\<bar>px\<bar> < 2 ^ 30" "\<bar>py\<bar> < 2 ^ 30" "\<bar>qx\<bar> < 2 ^ 30" "\<bar>qy\<bar> < 2 ^ 30"
    and "\<not> (px = qx \<and> py = qy)" "\<not> qx + qy < px + py"
    "qx - px > qy - py \<or> px - qx > qy - py"
  shows "traverse_segment px py qx qy record_pixel [] =
    Some (map (\<lambda>i. (i + px,
             int_of_long (lrint (float_add (float_of_int py) (float_mul (float_of_int i)
               (to_float (float_of_int (qy - py) / float_of_int (qx - px))))))))
           [0..qx - px - 1])"
proof -
  note ok = int_ok_bounded [OF assms(1) assms(2)] int_ok_bounded [OF assms(3) assms(4)]
    int_ok_bounded(1) [OF assms(2) assms(1)] int_ok_bounded(1) [OF assms(4) assms(3)]
    int_ok_bounded(3) [OF assms(3) assms(1)] int_ok_bounded(3) [OF assms(4) assms(2)]
    int_ok_bounded(3) [OF assms(1) assms(3)]
  have "0 < qx - px" using assms(6,7) by (rule normalised_horizontal)
  then have nz: "float_of_int (qx - px) \<noteq> 0" using float_of_int_pos by fastforce
  show ?thesis
    using assms(5-7) nz ok
    by (subst traverse_segment.simps)
       (simp add: float_div_def horizontal_loop_fold fold_record_pixel del: of_int_diff)
qed

lemma traverse_segment_vertical:
  assumes "\<bar>px\<bar> < 2 ^ 30" "\<bar>py\<bar> < 2 ^ 30" "\<bar>qx\<bar> < 2 ^ 30" "\<bar>qy\<bar> < 2 ^ 30"
    and "\<not> (px = qx \<and> py = qy)" "\<not> qx + qy < px + py"
    "\<not> (qx - px > qy - py \<or> px - qx > qy - py)"
  shows "traverse_segment px py qx qy record_pixel [] =
    Some (map (\<lambda>j. (int_of_long (lrint (float_add (float_of_int px) (float_mul (float_of_int j)
               (to_float (float_of_int (qx - px) / float_of_int (qy - py)))))),
             j + py))
           [0..qy - py])"
proof -
  note ok = int_ok_bounded [OF assms(1) assms(2)] int_ok_bounded [OF assms(3) assms(4)]
    int_ok_bounded(1) [OF assms(2) assms(1)] int_ok_bounded(1) [OF assms(4) assms(3)]
    int_ok_bounded(3) [OF assms(3) assms(1)] int_ok_bounded(3) [OF assms(4) assms(2)]
    int_ok_bounded(3) [OF assms(1) assms(3)]
  have "0 < qy - py" using assms(5-7) by (rule normalised_vertical)
  then have nz: "float_of_int (qy - py) \<noteq> 0" using float_of_int_pos by fastforce
  have small: "qy - py + 1 < 2 ^ 31" using assms(2,4) by (simp add: abs_less_iff)
  show ?thesis
    using assms(5-7) nz ok
    by (subst traverse_segment.simps)
       (auto simp add: float_div_def vertical_loop_fold [OF order_refl small] fold_record_pixel
          simp del: of_int_diff)
qed


lemma traverse_segment_returns:
  assumes "\<bar>px\<bar> < 2 ^ 30" "\<bar>py\<bar> < 2 ^ 30" "\<bar>qx\<bar> < 2 ^ 30" "\<bar>qy\<bar> < 2 ^ 30"
  shows "\<exists>pix. traverse_segment px py qx qy record_pixel [] = Some pix"
proof -
  have normal: "\<exists>pix. traverse_segment ax ay bx by record_pixel [] = Some pix"
    if b: "\<bar>ax\<bar> < 2 ^ 30" "\<bar>ay\<bar> < 2 ^ 30" "\<bar>bx\<bar> < 2 ^ 30" "\<bar>by\<bar> < 2 ^ 30"
      and n: "\<not> bx + by < ax + ay" for ax ay bx "by" :: int
  proof (cases "ax = bx \<and> ay = by")
    case True
    then show ?thesis
      using traverse_segment_point [OF b(1,2), of record_pixel "[]"] by auto
  next
    case False
    show ?thesis
    proof (cases "bx - ax > by - ay \<or> ax - bx > by - ay")
      case True
      then show ?thesis using traverse_segment_horizontal [OF b False n] by blast
    next
      case False
      then show ?thesis
        using traverse_segment_vertical [OF b \<open>\<not> (ax = bx \<and> ay = by)\<close> n] by blast
    qed
  qed
  show ?thesis
  proof (cases "qx + qy < px + py")
    case True
    then have "\<not> px + py < qx + qy" by simp
    from normal [OF assms(3,4,1,2) this]
    show ?thesis
      unfolding traverse_segment_swap [OF assms True, of record_pixel "[]"] .
  next
    case False
    then show ?thesis using normal [OF assms] by blast
  qed
qed

lemma int_of_long_id: "int_ok v \<Longrightarrow> int_of_long v = v"
  by (simp add: int_of_long_def int_ok_def)

lemma abs_of_int_le:
  assumes "\<bar>n\<bar> \<le> k"
  shows "\<bar>of_int n :: real\<bar> \<le> of_int k"
proof -
  have "\<bar>of_int n :: real\<bar> = of_int \<bar>n\<bar>" by simp
  also have "\<dots> \<le> of_int k" using assms by (simp only: of_int_le_iff)
  finally show ?thesis .
qed

lemma vertical_first_x:
  assumes "\<bar>px\<bar> \<le> 2 ^ 20"
  shows "int_of_long (lrint (float_add (float_of_int px) (float_mul (float_of_int 0) S))) = px"
proof -
  have "\<bar>px\<bar> \<le> 2 ^ 24" using assms by simp
  then have X: "to_float (of_int px) = of_int px" by (rule to_float_of_int)
  have "int_ok px" using assms by (simp add: int_ok_def abs_le_iff)
  then show ?thesis
    by (simp add: float_add_def float_mul_def float_of_int_def to_float_0 X lrint_of_int
        int_of_long_id)
qed

lemma vertical_last_x:
  assumes "\<bar>px\<bar> \<le> 2 ^ 20" "\<bar>qx\<bar> \<le> 2 ^ 20" "0 < d" "d < 2 ^ 31"
  shows "int_of_long (lrint (float_add (float_of_int px) (float_mul (float_of_int d)
           (to_float (float_of_int (qx - px) / float_of_int d))))) = qx"
proof -
  define a where "a = qx - px"
  define D where "D = float_of_int d"
  define S where "S = to_float (of_int a / D)"
  define P where "P = to_float (D * S)"
  define T where "T = to_float (of_int px + P)"
  have "\<bar>a\<bar> \<le> 2 ^ 21" using assms(1,2) by (simp add: a_def)
  then have a: "\<bar>of_int a :: real\<bar> \<le> 2 ^ 21"
    using abs_of_int_le [of a "2 ^ 21"] by simp
  have "\<bar>a\<bar> \<le> 2 ^ 24" using \<open>\<bar>a\<bar> \<le> 2 ^ 21\<close> by simp
  then have A: "float_of_int a = of_int a"
    unfolding float_of_int_def by (rule to_float_of_int)
  have "\<bar>px\<bar> \<le> 2 ^ 24" using assms(1) by simp
  then have X: "float_of_int px = of_int px"
    unfolding float_of_int_def by (rule to_float_of_int)
  have px: "\<bar>of_int px :: real\<bar> \<le> 2 ^ 20"
    using abs_of_int_le [OF assms(1)] by simp
  have Dpos: "0 < D" unfolding D_def using assms(3) by (rule float_of_int_pos)
  have "(of_int d :: real) \<le> of_int (2 ^ 31)"
    using assms(4) by (simp only: of_int_le_iff)
  then have d: "(of_int d :: real) \<le> 2 ^ 31" by simp
  have d0: "0 < (of_int d :: real)" using assms(3) by simp
  have Dle: "D \<le> 2 ^ 32"
    using to_float_rel [of "of_int d"] d d0 by (simp add: D_def float_of_int_def abs_le_iff)
  have "\<bar>S - of_int a / D\<bar> \<le> \<bar>of_int a / D\<bar> / 2 ^ 24 + 1 / 2 ^ 150"
    unfolding S_def by (rule to_float_rel)
  then have "D * \<bar>S - of_int a / D\<bar> \<le> D * (\<bar>of_int a / D\<bar> / 2 ^ 24 + 1 / 2 ^ 150)"
    using Dpos by (intro mult_left_mono) simp_all
  moreover have "D * \<bar>S - of_int a / D\<bar> = \<bar>D * S - of_int a\<bar>"
  proof -
    have "D * \<bar>S - of_int a / D\<bar> = \<bar>D * (S - of_int a / D)\<bar>"
      using Dpos by (simp add: abs_mult)
    also have "D * (S - of_int a / D) = D * S - of_int a"
      using Dpos by (simp add: algebra_simps)
    finally show ?thesis .
  qed
  moreover have "D * (\<bar>of_int a / D\<bar> / 2 ^ 24 + 1 / 2 ^ 150)
      = \<bar>of_int a\<bar> / 2 ^ 24 + D / 2 ^ 150"
    using Dpos by (simp add: algebra_simps abs_mult)
  ultimately have "\<bar>D * S - of_int a\<bar> \<le> \<bar>of_int a\<bar> / 2 ^ 24 + D / 2 ^ 150"
    by simp
  moreover have "\<bar>of_int a :: real\<bar> / 2 ^ 24 \<le> 1 / 8" using a by simp
  moreover have "D / 2 ^ 150 \<le> 1 / 1000" using Dle by simp
  ultimately have DS: "\<bar>D * S - of_int a\<bar> \<le> 1 / 8 + 1 / 1000"
    by linarith
  have a': "\<bar>of_int a :: real\<bar> \<le> 2097152" using a by simp
  with DS have DSle: "\<bar>D * S\<bar> \<le> 2097153" by linarith
  have "\<bar>P - D * S\<bar> \<le> \<bar>D * S\<bar> / 2 ^ 24 + 1 / 2 ^ 150"
    unfolding P_def by (rule to_float_rel)
  moreover have "\<bar>D * S\<bar> / 2 ^ 24 \<le> 1 / 8 + 1 / 2000" using DSle by simp
  moreover have "(1::real) / 2 ^ 150 \<le> 1 / 2000" by simp
  ultimately have PDS: "\<bar>P - D * S\<bar> \<le> 1 / 8 + 1 / 1000" by linarith
  with DS have Pa: "\<bar>P - of_int a\<bar> \<le> 1 / 4 + 2 / 1000" by linarith
  have qx: "(of_int qx :: real) = of_int px + of_int a" by (simp add: a_def)
  have sum: "\<bar>of_int px + P - of_int qx\<bar> \<le> 1 / 4 + 2 / 1000"
    using Pa unfolding qx by simp
  have "\<bar>of_int qx :: real\<bar> \<le> 1048576"
    using abs_of_int_le [OF assms(2)] by simp
  with sum have sle: "\<bar>of_int px + P\<bar> \<le> 1048577" by linarith
  have "\<bar>T - (of_int px + P)\<bar> \<le> \<bar>of_int px + P\<bar> / 2 ^ 24 + 1 / 2 ^ 150"
    unfolding T_def by (rule to_float_rel)
  moreover have "\<bar>of_int px + P\<bar> / 2 ^ 24 \<le> 1 / 16 + 1 / 2000" using sle by simp
  moreover have "(1::real) / 2 ^ 150 \<le> 1 / 2000" by simp
  ultimately have "\<bar>T - (of_int px + P)\<bar> \<le> 1 / 16 + 1 / 1000" by linarith
  with sum have "\<bar>T - of_int qx\<bar> < 1 / 2" by linarith
  then have "lrint T = qx" by (rule lrint_near)
  moreover have "int_ok qx" using assms(2) by (simp add: int_ok_def abs_le_iff)
  ultimately have "int_of_long (lrint T) = qx" by (simp add: int_of_long_id)
  then show ?thesis
    by (simp add: T_def P_def S_def D_def float_add_def float_mul_def A [unfolded a_def] X a_def)
qed


lemma upto_0_4: "[0..4] = [0, 1, 2, 3, 4::int]"
  by (simp add: upto.simps)

lemma upto_0_5: "[0..5] = [0, 1, 2, 3, 4, 5::int]"
  by (simp add: upto.simps)

text \<open>
  The rounding shows in the pixels. On the segment from \<open>(-22, 13)\<close> to \<open>(0, 0)\<close> the exact
  position at \<open>x = -11\<close> is \<open>13 - 11 * 13 / 22 = 6.5\<close>, a tie, which \<^verbatim>\<open>lrint\<close> would send
  to \<open>6\<close>; the float slope is \<open>-9913809 / 2\<^sup>2\<^sup>4\<close>, the float sum lies above \<open>6.5\<close>, and the
  pixel is \<open>(-11, 7)\<close>.
\<close>

lemma to_float_eqI:
  assumes "- 126 \<le> e" "e \<le> 127" "2 powi e \<le> \<bar>x\<bar>" "\<bar>x\<bar> < 2 powi (e + 1)"
  shows "to_float x = of_int (lrint (x / 2 powi (e - 23))) * 2 powi (e - 23)"
  using float_exponent_eqI [OF assms] by (simp add: to_float_def Let_def)

lemma traverse_segment_rounding:
  "\<exists>pix. traverse_segment (- 22) 13 0 0 record_pixel [] = Some pix \<and> pix ! 11 = (- 11, 7)"
proof -
  have i: "to_float 11 = 11" "to_float 13 = 13" "to_float (- 13) = - 13" "to_float 22 = 22"
    using to_float_of_int [of 11] to_float_of_int [of 13] to_float_of_int [of "- 13"]
      to_float_of_int [of 22] by simp_all
  define S :: real where "S = - 9913809 / 16777216"
  define P :: real where "P = - 13631487 / 2097152"
  define T :: real where "T = 13631489 / 2097152"
  have s: "to_float (- (13 / 22)) = S"
    unfolding S_def by (subst to_float_eqI [where e = "- 1"]) (simp_all add: lrint_def)
  have p: "to_float (11 * S) = P"
    unfolding S_def P_def by (subst to_float_eqI [where e = 2]) (simp_all add: lrint_def)
  have t: "to_float (13 + P) = T"
    unfolding P_def T_def by (subst to_float_eqI [where e = 2]) (simp_all add: lrint_def)
  have l: "lrint T = 7"
    unfolding T_def by (simp add: lrint_def)
  have "int_of_long (lrint (float_add (float_of_int 13) (float_mul (float_of_int 11)
          (to_float (float_of_int (0 - 13) / float_of_int (0 - (- 22))))))) = 7"
    by (simp add: float_add_def float_mul_def float_of_int_def i s p t l int_of_long_def)
  then show ?thesis
    using traverse_segment_horizontal [of "- 22" 13 0 0]
    by (simp add: upto.simps)
qed

text \<open>
  C10, for coordinates of bounded magnitude. When the four coordinates are below
  \<open>2\<^sup>3\<^sup>0\<close> in magnitude, no \<^verbatim>\<open>int\<close> operation overflows and the traversal returns: it
  makes at most one recursive call, and makes it exactly when \<open>qx + qy < px + py\<close>; the
  call it makes has the endpoints exchanged. Coincident endpoints give one plot call.
  For endpoints that need no exchange, the near-horizontal branch calls the plot
  callback \<open>qx - px\<close> times, at \<open>x = px, \<dots>, qx - 1\<close>, and never at the pixel
  \<open>(qx, qy)\<close>; the near-vertical branch calls it \<open>qy - py + 1\<close> times, at
  \<open>y = py, \<dots>, qy\<close>, and when \<open>px\<close> and \<open>qx\<close> are at most \<open>2\<^sup>2\<^sup>0\<close> in magnitude the first call
  is at \<open>(px, py)\<close> and the last at \<open>(qx, qy)\<close>. The calls are read off the list that
  \<open>record_pixel\<close> builds.
\<close>

theorem traverse_segment_calls:
  fixes px py qx qy :: int
  assumes "\<bar>px\<bar> < 2 ^ 30" "\<bar>py\<bar> < 2 ^ 30" "\<bar>qx\<bar> < 2 ^ 30" "\<bar>qy\<bar> < 2 ^ 30"
  shows "(\<exists>pix. traverse_segment px py qx qy record_pixel [] = Some pix)
    \<and> (\<exists>k. swap_calls px py qx qy = Some k \<and> k \<le> 1 \<and> (k = 1) = (qx + qy < px + py))
    \<and> (qx + qy < px + py \<longrightarrow>
         traverse_segment px py qx qy f e = traverse_segment qx qy px py f e)
    \<and> (px = qx \<and> py = qy \<longrightarrow>
         traverse_segment px py qx qy record_pixel [] = Some [(px, py)])
    \<and> (\<not> (px = qx \<and> py = qy) \<and> \<not> qx + qy < px + py
          \<and> (qx - px > qy - py \<or> px - qx > qy - py) \<longrightarrow>
         (\<exists>pix. traverse_segment px py qx qy record_pixel [] = Some pix
            \<and> 0 < qx - px \<and> int (length pix) = qx - px
            \<and> map fst pix = [px..qx - 1] \<and> (qx, qy) \<notin> set pix))
    \<and> (\<not> (px = qx \<and> py = qy) \<and> \<not> qx + qy < px + py
          \<and> \<not> (qx - px > qy - py \<or> px - qx > qy - py) \<longrightarrow>
         (\<exists>pix. traverse_segment px py qx qy record_pixel [] = Some pix
            \<and> int (length pix) = qy - py + 1 \<and> map snd pix = [py..qy]
            \<and> (\<bar>px\<bar> \<le> 2 ^ 20 \<and> \<bar>qx\<bar> \<le> 2 ^ 20 \<longrightarrow>
                 hd pix = (px, py) \<and> last pix = (qx, qy))))"
proof (intro conjI impI)
  show "\<exists>pix. traverse_segment px py qx qy record_pixel [] = Some pix"
    using assms by (rule traverse_segment_returns)
  show "\<exists>k. swap_calls px py qx qy = Some k \<and> k \<le> 1 \<and> (k = 1) = (qx + qy < px + py)"
    using swap_calls_bounded [OF assms] by simp
  show "traverse_segment px py qx qy f e = traverse_segment qx qy px py f e"
    if "qx + qy < px + py" using assms that by (rule traverse_segment_swap)
  show "traverse_segment px py qx qy record_pixel [] = Some [(px, py)]"
    if "px = qx \<and> py = qy"
    using that traverse_segment_point [OF assms(1,2), of record_pixel "[]"]
    by (simp add: record_pixel_def)
next
  assume h: "\<not> (px = qx \<and> py = qy) \<and> \<not> qx + qy < px + py
          \<and> (qx - px > qy - py \<or> px - qx > qy - py)"
  let ?g = "\<lambda>i. (i + px,
             int_of_long (lrint (float_add (float_of_int py) (float_mul (float_of_int i)
               (to_float (float_of_int (qy - py) / float_of_int (qx - px)))))))"
  let ?pix = "map ?g [0..qx - px - 1]"
  have pos: "0 < qx - px" using h normalised_horizontal by blast
  have tr: "traverse_segment px py qx qy record_pixel [] = Some ?pix"
    using h traverse_segment_horizontal [OF assms] by blast
  have len: "int (length ?pix) = qx - px" using pos by simp
  have "map fst ?pix = map (\<lambda>i. i + px) [0..qx - px - 1]" by (simp add: comp_def)
  also have "\<dots> = [px..qx - 1]" by (simp add: map_add_upto)
  finally have xs: "map fst ?pix = [px..qx - 1]" .
  have "qx \<notin> set (map fst ?pix)" unfolding xs by simp
  then have notin: "(qx, qy) \<notin> set ?pix" by force
  show "\<exists>pix. traverse_segment px py qx qy record_pixel [] = Some pix
            \<and> 0 < qx - px \<and> int (length pix) = qx - px
            \<and> map fst pix = [px..qx - 1] \<and> (qx, qy) \<notin> set pix"
    using tr pos len xs notin by blast
next
  assume h: "\<not> (px = qx \<and> py = qy) \<and> \<not> qx + qy < px + py
          \<and> \<not> (qx - px > qy - py \<or> px - qx > qy - py)"
  let ?S = "to_float (float_of_int (qx - px) / float_of_int (qy - py))"
  let ?g = "\<lambda>j. (int_of_long (lrint (float_add (float_of_int px)
                     (float_mul (float_of_int j) ?S))), j + py)"
  let ?pix = "map ?g [0..qy - py]"
  have pos: "0 < qy - py" using h normalised_vertical by blast
  have small: "qy - py < 2 ^ 31" using assms(2,4) by (simp add: abs_less_iff)
  have tr: "traverse_segment px py qx qy record_pixel [] = Some ?pix"
    using h traverse_segment_vertical [OF assms] by blast
  have len: "int (length ?pix) = qy - py + 1" using pos by simp
  have "map snd ?pix = map (\<lambda>j. j + py) [0..qy - py]" by (simp add: comp_def)
  also have "\<dots> = [py..qy]" by (simp add: map_add_upto)
  finally have ys: "map snd ?pix = [py..qy]" .
  have ne: "[0..qy - py] \<noteq> []" using pos by simp
  have hd0: "hd [0..qy - py] = 0" using pos by (simp add: upto_rec1)
  have last0: "last [0..qy - py] = qy - py" using pos by (simp add: upto_rec2)
  have ends: "hd ?pix = (px, py) \<and> last ?pix = (qx, qy)"
    if b: "\<bar>px\<bar> \<le> 2 ^ 20 \<and> \<bar>qx\<bar> \<le> 2 ^ 20"
  proof
    have "hd ?pix = ?g 0" using ne hd0 by (simp add: hd_map)
    also have "\<dots> = (px, py)" using vertical_first_x [of px ?S] b by simp
    finally show "hd ?pix = (px, py)" .
    have "last ?pix = ?g (qy - py)" using ne last0 by (simp add: last_map)
    also have "\<dots> = (qx, qy)"
      using vertical_last_x [of px qx "qy - py"] b pos small by simp
    finally show "last ?pix = (qx, qy)" .
  qed
  show "\<exists>pix. traverse_segment px py qx qy record_pixel [] = Some pix
            \<and> int (length pix) = qy - py + 1 \<and> map snd pix = [py..qy]
            \<and> (\<bar>px\<bar> \<le> 2 ^ 20 \<and> \<bar>qx\<bar> \<le> 2 ^ 20 \<longrightarrow>
                 hd pix = (px, py) \<and> last pix = (qx, qy))"
    using tr len ys ends by blast
qed

theorem traverse_segment_calls_witness:
  "swap_calls 5 2 0 0 = Some 1
   \<and> traverse_segment 5 2 0 0 record_pixel [] = traverse_segment 0 0 5 2 record_pixel []
   \<and> traverse_segment 3 3 3 3 record_pixel [] = Some [(3, 3)]
   \<and> (\<exists>pix. traverse_segment 0 0 5 2 record_pixel [] = Some pix
         \<and> length pix = 5 \<and> map fst pix = [0, 1, 2, 3, 4] \<and> (5, 2) \<notin> set pix)
   \<and> (\<exists>pix. traverse_segment 0 0 2 5 record_pixel [] = Some pix
         \<and> length pix = 6 \<and> map snd pix = [0, 1, 2, 3, 4, 5]
         \<and> hd pix = (0, 0) \<and> last pix = (2, 5))"
  using traverse_segment_calls [of 5 2 0 0 record_pixel "[]"]
    traverse_segment_calls [of 3 3 3 3 record_pixel "[]"]
    traverse_segment_calls [of 0 0 5 2 record_pixel "[]"]
    traverse_segment_calls [of 0 0 2 5 record_pixel "[]"]
  by (auto simp add: upto_0_4 upto_0_5)

text \<open>
  C10 as the claim has it, for every pair of integer endpoints, fails. The \<open>x\<close> positions
  of the near-vertical branch are float sums, and \<open>16777217 = 2\<^sup>2\<^sup>4 + 1\<close> is no float: the
  vertical segment from \<open>(16777217, 0)\<close> to \<open>(16777217, 2)\<close> is plotted at \<open>x = 16777216\<close>,
  at neither endpoint. And from \<open>(2147483647, 1)\<close> the sum \<open>px + py\<close> overflows.
\<close>

theorem traverse_segment_endpoints_counterexample:
  "traverse_segment 16777217 0 16777217 2 record_pixel []
     = Some [(16777216, 0), (16777216, 1), (16777216, 2)]
   \<and> traverse_segment 2147483647 1 0 0 record_pixel [] = None"
proof
  have z: "to_float (0 / x) = 0" for x by (simp add: to_float_0)
  have "to_float (of_int 16777216) = of_int 16777216"
    by (rule to_float_of_int) simp
  then have big: "to_float 16777216 = 16777216" by simp
  show "traverse_segment 16777217 0 16777217 2 record_pixel []
     = Some [(16777216, 0), (16777216, 1), (16777216, 2)]"
    using traverse_segment_vertical [of 16777217 0 16777217 2]
    by (simp add: upto.simps float_of_int_def float_add_def float_mul_def to_float_0
        to_float_16777217 big lrint_def int_of_long_def)
  show "traverse_segment 2147483647 1 0 0 record_pixel [] = None"
    by (subst traverse_segment.simps) (simp add: int_ok_def)
qed


subsection \<open>The sort of the hull computation\<close>

lemma compare_le_iff: "compare_points_lexicographically a b \<le> 0 \<longleftrightarrow> lex_le a b"
  by (auto simp: compare_points_lexicographically_def lex_le_def Let_def)

lemma lex_le_total: "lex_le a b \<or> lex_le b a"
  by (auto simp: lex_le_def)

lemma lex_le_trans: "lex_le a b \<Longrightarrow> lex_le b c \<Longrightarrow> lex_le a c"
  by (auto simp: lex_le_def)

lemma mset_insert_point: "mset (insert_point a bs) = add_mset a (mset bs)"
  by (induction bs) simp_all

lemma set_insert_point: "set (insert_point a bs) = insert a (set bs)"
  by (induction bs) auto

lemma sorted_insert_point:
  "sorted_wrt lex_le bs \<Longrightarrow> sorted_wrt lex_le (insert_point a bs)"
proof (induction bs)
  case Nil
  then show ?case by simp
next
  case (Cons b bs)
  show ?case
  proof (cases "lex_le a b")
    case True
    with Cons.prems show ?thesis
      by (auto simp: compare_le_iff intro: lex_le_trans)
  next
    case False
    then have "lex_le b a" using lex_le_total by blast
    with False Cons show ?thesis
      by (auto simp: compare_le_iff set_insert_point)
  qed
qed

lemma mset_qsort_points: "mset (qsort_points xs) = mset xs"
  by (induction xs) (simp_all add: qsort_points_def mset_insert_point)

lemma sorted_qsort_points: "sorted_wrt lex_le (qsort_points xs)"
  by (induction xs) (simp_all add: qsort_points_def sorted_insert_point)

lemma length_qsort_points: "length (qsort_points xs) = length xs"
  using mset_qsort_points [of xs] by (metis size_mset)

lemma insert_point_least:
  "\<forall>b \<in> set bs. lex_le a b \<Longrightarrow> insert_point a bs = a # bs"
  by (cases bs) (simp_all add: compare_le_iff)

lemma qsort_points_sorted_id: "sorted_wrt lex_le xs \<Longrightarrow> qsort_points xs = xs"
proof (induction xs)
  case Nil
  then show ?case by (simp add: qsort_points_def)
next
  case (Cons a xs)
  then have "qsort_points xs = xs" by simp
  then have "qsort_points (a # xs) = insert_point a xs"
    by (simp add: qsort_points_def)
  with Cons.prems show ?case by (simp add: insert_point_least)
qed

text \<open>
  C5, as the source has it. The hull computation sorts the array it is given, in place
  (the comment above \<^verbatim>\<open>do_the_andrew_parkour\<close> says so): after the call the input
  array holds the same points, each as often as before, in ascending lexicographic
  order. It holds them in the order it had before exactly when that order was
  ascending already.
\<close>

theorem hull_sorts_input_in_place:
  "(case do_the_andrew_parkour y x of
      (m, z, x') \<Rightarrow> x' = qsort_points x \<and> mset x' = mset x \<and> sorted_wrt lex_le x'
                    \<and> (x' = x) = sorted_wrt lex_le x)"
proof -
  have "(qsort_points x = x) = sorted_wrt lex_le x"
    using sorted_qsort_points [of x] qsort_points_sorted_id [of x] by auto
  then show ?thesis
    by (simp add: do_the_andrew_parkour_def Let_def split: prod.splits
        add: mset_qsort_points sorted_qsort_points)
qed

theorem hull_input_order_counterexample:
  "snd (snd (do_the_andrew_parkour (\<lambda>i. (0, 0)) [(1, 0), (0, 0)])) \<noteq> [(1, 0), (0, 0)]"
  by (simp add: do_the_andrew_parkour_def Let_def qsort_points_def
      compare_points_lexicographically_def split: prod.splits)

lemma compute_red_points_convex_hull_sorts:
  "vs_y (compute_red_points_convex_hull e) =
     qsort_points (take (vs_n e) (vs_y e)) @ drop (vs_n e) (vs_y e)"
  by (simp add: compute_red_points_convex_hull_def do_the_andrew_parkour_def Let_def
      split: prod.splits)

subsection \<open>The hull of three collinear points\<close>

text \<open>
  C3. For the input \<open>(0,0), (1,0), (2,0)\<close> the hull computation returns three points,
  \<open>(0,0), (2,0), (0,0)\<close>, whatever the output array held before: the set of the
  output points is \<open>{(0,0), (2,0)}\<close>, and \<open>(1,0)\<close> is not among them.
\<close>

theorem collinear_hull:
  "hull_points (do_the_andrew_parkour y [(0, 0), (1, 0), (2, 0)]) = [(0, 0), (2, 0), (0, 0)]
   \<and> set (hull_points (do_the_andrew_parkour y [(0, 0), (1, 0), (2, 0)])) = {(0, 0), (2, 0)}
   \<and> (1, 0) \<notin> set (hull_points (do_the_andrew_parkour y [(0, 0), (1, 0), (2, 0)]))"
proof -
  have "hull_points (do_the_andrew_parkour y [(0, 0), (1, 0), (2, 0)]) = [(0, 0), (2, 0), (0, 0)]"
    by (simp add: do_the_andrew_parkour_def Let_def qsort_points_def hull_points_def
      compare_points_lexicographically_def hull_pop.simps det_def float_small upto.simps)
  then show ?thesis by auto
qed

subsection \<open>The number of hull points\<close>

text \<open>
  C4. The source documents the returned count as the number of points of the convex
  hull, and \<^verbatim>\<open>main_pkatz\<close> allocates the output array for as many points as the input
  has. For the three corners of a triangle the function returns \<open>4\<close>: the second pass
  runs down to \<open>x[0]\<close> and stores that point a second time, in the cell after the third
  point, whatever the output array held before.
\<close>

theorem hull_count_triangle:
  "fst (do_the_andrew_parkour y [(0, 0), (1, 1), (2, 0)]) = 4
   \<and> hull_points (do_the_andrew_parkour y [(0, 0), (1, 1), (2, 0)])
       = [(0, 0), (2, 0), (1, 1), (0, 0)]
   \<and> \<not> fst (do_the_andrew_parkour y [(0, 0), (1, 1), (2, 0)])
         \<le> int (length [(0, 0), (1, 1), (2, 0) :: point])"
  by (simp add: do_the_andrew_parkour_def Let_def qsort_points_def hull_points_def
      compare_points_lexicographically_def hull_pop.simps det_def float_small upto.simps)

subsection \<open>The drag flags\<close>

lemma exec_ConsE:
  assumes "exec (S # Ss) s = Some s'"
  obtains t where "S s = Some t" "exec Ss t = Some s'"
  using assms by (auto split: option.splits)

lemma exec_NilD: "exec [] s = Some s' \<Longrightarrow> s' = s"
  by simp

lemma change_view_scale_flags:
  "change_view_scale e x y fac = Some e' \<Longrightarrow>
     dragging_window_point e' = dragging_window_point e
     \<and> dragging_image_point e' = dragging_image_point e
     \<and> dragging_background e' = dragging_background e"
  by (auto simp: change_view_scale_def Let_def split: option.splits)

lemma drag_point_flags:
  "drag_point_in_window_domain e x y = Some e' \<Longrightarrow>
     dragging_window_point e' = dragging_window_point e
     \<and> dragging_image_point e' = dragging_image_point e
     \<and> dragging_background e' = dragging_background e"
  by (auto simp: drag_point_in_window_domain_def split: option.splits)

lemma event_button_flags:
  assumes eb: "event_button K f k m x y = Some f'"
    and LR: "FTR_BUTTON_LEFT K \<noteq> FTR_BUTTON_RIGHT K" and L0: "FTR_BUTTON_LEFT K \<noteq> 0"
  shows "turned_on f f' \<le> 1"
proof -
  define p where "p = hit_point (userdata f) (of_int x) (of_int y)"
  from eb obtain t1 t2 t3 t4 t5 t6 t7 where
    s1: "when (\<lambda>_. k = FTR_BUTTON_LEFT K \<and> p \<ge> 0)
           (on_e (\<lambda>e. e\<lparr>dragged_point := p, dragging_window_point := True\<rparr>)) f = Some t1"
    and s2: "when (\<lambda>f. dragging_window_point (userdata f) \<and> k = - FTR_BUTTON_LEFT K)
           (exec
             [on_e_opt (\<lambda>e. drag_point_in_window_domain e x y),
              on_e (\<lambda>e. e\<lparr>dragging_window_point := False, dragged_point := - 1\<rparr>)]) t1 = Some t2"
    and s3: "when (\<lambda>_. k = FTR_BUTTON_RIGHT K \<and> p \<ge> 0)
           (on_e (\<lambda>e. e\<lparr>dragged_point := p, dragging_image_point := True\<rparr>)) t2 = Some t3"
    and s4: "when (\<lambda>f. k = FTR_BUTTON_LEFT K \<and> hit_point (userdata f) (of_int x) (of_int y) < 0)
           (on_e (\<lambda>e. e\<lparr>drag_handle := (x, y), dragging_background := True\<rparr>)) t3 = Some t4"
    and s5: "when (\<lambda>f. dragging_background (userdata f) \<and> k = - FTR_BUTTON_LEFT K)
           (on_e (\<lambda>e.
              let dx = x - fst (drag_handle e); dy = y - snd (drag_handle e) in
              (change_view_offset e (of_int dx) (of_int dy))\<lparr>dragging_background := False\<rparr>)) t4
           = Some t5"
    and s6: "when (\<lambda>_. k = FTR_BUTTON_DOWN K)
           (\<lambda>f. if hit_point (userdata f) (of_int x) (of_int y) < 0
                then on_e_opt (\<lambda>e. change_view_scale e x y ZOOM_FACTOR) f
                else on_e (\<lambda>e. change_radius e x y RADIUS_FACTOR) f) t5 = Some t6"
    and s7: "when (\<lambda>_. k = FTR_BUTTON_UP K)
           (\<lambda>f. if hit_point (userdata f) (of_int x) (of_int y) < 0
                then on_e_opt (\<lambda>e. change_view_scale e x y (1 / ZOOM_FACTOR)) f
                else on_e (\<lambda>e. change_radius e x y (1 / RADIUS_FACTOR)) f) t6 = Some t7"
    and s8: "f' = t7\<lparr>changed := 1\<rparr>"
    unfolding event_button_def Let_def p_def [symmetric]
    by (elim exec_ConsE) (auto dest!: exec_NilD)
  let ?w = "\<lambda>t. dragging_window_point (userdata t)"
  let ?i = "\<lambda>t. dragging_image_point (userdata t)"
  let ?b = "\<lambda>t. dragging_background (userdata t)"
  have f1: "?w t1 = (?w f \<or> (k = FTR_BUTTON_LEFT K \<and> 0 \<le> p))" "?i t1 = ?i f" "?b t1 = ?b f"
    "hit_point (userdata t1) (of_int x) (of_int y) = p"
    using s1 by (auto simp: when_def on_e_def p_def hit_point_def map_view_to_window_def
        split: if_splits)
  have f2: "?w t2 = (?w t1 \<and> k \<noteq> - FTR_BUTTON_LEFT K)" "?i t2 = ?i t1" "?b t2 = ?b t1"
    "k \<noteq> - FTR_BUTTON_LEFT K \<longrightarrow> t2 = t1"
    using s2 by (auto simp: when_def on_e_def on_e_opt_def
        split: if_splits option.splits dest: drag_point_flags)
  have f3: "?w t3 = ?w t2" "?i t3 = (?i t2 \<or> (k = FTR_BUTTON_RIGHT K \<and> 0 \<le> p))" "?b t3 = ?b t2"
    "hit_point (userdata t3) (of_int x) (of_int y) = hit_point (userdata t2) (of_int x) (of_int y)"
    using s3 by (auto simp: when_def on_e_def hit_point_def map_view_to_window_def
        split: if_splits)
  have f4: "?w t4 = ?w t3" "?i t4 = ?i t3"
    "?b t4 = (?b t3 \<or> (k = FTR_BUTTON_LEFT K \<and> hit_point (userdata t3) (of_int x) (of_int y) < 0))"
    using s4 by (auto simp: when_def on_e_def split: if_splits)
  have f5: "?w t5 = ?w t4" "?i t5 = ?i t4" "?b t5 = (?b t4 \<and> k \<noteq> - FTR_BUTTON_LEFT K)"
    using s5 by (auto simp: when_def on_e_def change_view_offset_def Let_def split: if_splits)
  have f6: "?w t6 = ?w t5" "?i t6 = ?i t5" "?b t6 = ?b t5"
    using s6 by (auto simp: when_def on_e_def on_e_opt_def change_radius_def
        split: if_splits option.splits dest: change_view_scale_flags)
  have f7: "?w t7 = ?w t6" "?i t7 = ?i t6" "?b t7 = ?b t6"
    using s7 by (auto simp: when_def on_e_def on_e_opt_def change_radius_def
        split: if_splits option.splits dest: change_view_scale_flags)
  have f8: "?w f' = ?w t7" "?i f' = ?i t7" "?b f' = ?b t7"
    using s8 by simp_all
  have w: "?w f' = ((?w f \<or> (k = FTR_BUTTON_LEFT K \<and> 0 \<le> p)) \<and> k \<noteq> - FTR_BUTTON_LEFT K)"
    by (simp only: f8 f7 f6 f5 f4 f3 f2 f1)
  have i: "?i f' = (?i f \<or> (k = FTR_BUTTON_RIGHT K \<and> 0 \<le> p))"
    by (simp only: f8 f7 f6 f5 f4 f3 f2 f1)
  have b: "?b f' = ((?b f \<or> (k = FTR_BUTTON_LEFT K
              \<and> hit_point (userdata t3) (of_int x) (of_int y) < 0)) \<and> k \<noteq> - FTR_BUTTON_LEFT K)"
    by (simp only: f8 f7 f6 f5 f4 f3 f2 f1)
  have hit: "k = FTR_BUTTON_LEFT K \<longrightarrow> hit_point (userdata t3) (of_int x) (of_int y) = p"
    using f3(4) f2(4) f1(4) L0 by auto
  show ?thesis
    unfolding turned_on_def w i b using hit LR by auto
qed


lemma exec_inv:
  assumes "exec Ss s = Some s'" "P s"
    "\<forall>S \<in> set Ss. \<forall>t t'. P t \<longrightarrow> S t = Some t' \<longrightarrow> P t'"
  shows "P s'"
  using assms
proof (induction Ss arbitrary: s)
  case Nil
  then show ?case by (simp only: exec.simps option.inject)
next
  case (Cons S Ss)
  from Cons.prems(1) obtain t where t: "S s = Some t" "exec Ss t = Some s'"
    by (rule exec_ConsE)
  have step: "\<forall>t t'. P t \<longrightarrow> S t = Some t' \<longrightarrow> P t'"
    using Cons.prems(3) by (meson list.set_intros(1))
  have rest: "\<forall>S \<in> set Ss. \<forall>t t'. P t \<longrightarrow> S t = Some t' \<longrightarrow> P t'"
    using Cons.prems(3) by (meson list.set_intros(2))
  from step Cons.prems(2) t(1) have "P t" by blast
  then show ?case using Cons.IH [OF t(2) _ rest] by blast
qed

lemma event_key_q: "event_key K f 113 m x y = Some (f\<lparr>stop_requested := True\<rparr>)"
  by (simp add: event_key_def ftr_notify_the_desire_to_stop_this_loop_def)

lemma event_key_flags:
  assumes ek: "event_key K f k m x y = Some f'" and k: "k \<noteq> 113"
  shows "\<not> dragging_window_point (userdata f')" "\<not> dragging_image_point (userdata f')"
    "dragging_background (userdata f')
           = (if k = 99 then False else dragging_background (userdata f))"
proof -
  define b where "b = (if k = 99 then False else dragging_background (userdata f))"
  define P :: "FTR \<Rightarrow> bool" where "P = (\<lambda>t. dragging_background (userdata t) = b)"
  from ek k have "\<exists>t1. when (\<lambda>_. k = 99) (\<lambda>f. Some (center_view f)) f = Some t1
      \<and> (\<exists>Ss. exec Ss t1 = Some f'
            \<and> (\<forall>S \<in> set Ss. \<forall>t t'. P t \<longrightarrow> S t = Some t' \<longrightarrow> P t'))"
    unfolding event_key_def
    apply (simp only: if_False)
    apply (erule exec_ConsE)
    apply (rule exI, rule conjI, assumption)
    apply (rule exI, rule conjI, assumption)
    apply (auto simp: P_def when_def on_e_def on_e_opt_def change_view_offset_def
        split: if_splits option.splits dest: change_view_scale_flags)
    done
  then obtain t1 Ss where t1: "when (\<lambda>_. k = 99) (\<lambda>f. Some (center_view f)) f = Some t1"
    and rest: "exec Ss t1 = Some f'"
    and Ss: "\<forall>S \<in> set Ss. \<forall>t t'. P t \<longrightarrow> S t = Some t' \<longrightarrow> P t'"
    by blast
  have "P t1" using t1 by (auto simp: P_def b_def when_def center_view_def split: if_splits)
  from exec_inv [OF rest this Ss] show "dragging_background (userdata f')
           = (if k = 99 then False else dragging_background (userdata f))"
    by (simp add: P_def b_def)
  from ek k obtain t where "f' = t\<lparr>changed := 1\<rparr>" "\<not> dragging_window_point (userdata t)"
    "\<not> dragging_image_point (userdata t)"
    unfolding event_key_def
    apply (simp only: if_False)
    apply (elim exec_ConsE)
    apply (auto simp: on_e_def dest!: exec_NilD)
    done
  then show "\<not> dragging_window_point (userdata f')" "\<not> dragging_image_point (userdata f')"
    by simp_all
qed


lemma event_motion_flags:
  assumes "event_motion K f b m x y = Some f'"
  shows "drag_flags f' = drag_flags f"
  using assms unfolding event_motion_def
  apply (elim exec_ConsE)
  apply (auto simp: when_def on_e_def on_e_opt_def change_view_offset_def Let_def drag_flags_def
      split: if_splits option.splits dest: drag_point_flags)
  done

lemma hypot_less_iff: "0 < c \<Longrightarrow> hypot a b < c \<longleftrightarrow> a\<^sup>2 + b\<^sup>2 < c\<^sup>2"
proof -
  assume c: "0 < c"
  then have "c = sqrt (c\<^sup>2)" by simp
  then have "hypot a b < c \<longleftrightarrow> sqrt (a\<^sup>2 + b\<^sup>2) < sqrt (c\<^sup>2)"
    by (simp add: hypot_def)
  then show ?thesis by (simp only: real_sqrt_less_iff)
qed

lemma hit_point_code [code]:
  "hit_point e x y =
     (let P = map_view_to_window e (vs_c e) in
      if (fst P - x)\<^sup>2 + (snd P - y)\<^sup>2 < (2 + DISK_RADIUS)\<^sup>2 then 0 else - 1)"
proof -
  have "0 < 2 + DISK_RADIUS" by (simp add: DISK_RADIUS_def)
  then have "\<And>a b. hypot a b < 2 + DISK_RADIUS \<longleftrightarrow> a\<^sup>2 + b\<^sup>2 < (2 + DISK_RADIUS)\<^sup>2"
    by (rule hypot_less_iff)
  then show ?thesis by (simp only: hit_point_def)
qed

lemmas handler_defs = event_button_def event_key_def event_motion_def when_def on_e_def
  on_e_opt_def center_view_def main_state_def zero_state_def example_constants_def
  drag_flags_def hit_point_code map_view_to_window_def map_window_to_view_def DISK_RADIUS_def
  change_view_offset_def change_view_scale_def change_radius_def fdiv_def
  drag_point_in_window_domain_def ftr_notify_the_desire_to_stop_this_loop_def
  ZOOM_FACTOR_def RADIUS_FACTOR_def Let_def power2_eq_square

text \<open>
  C8, as the source has it. The three drag flags are independent booleans and nothing
  keeps them exclusive: a right press on the handle followed by a left press on the
  handle leaves \<^verbatim>\<open>dragging_image_point\<close> and \<^verbatim>\<open>dragging_window_point\<close> both set. What
  holds is that one key, button or motion event turns on at most one of the three flags,
  when the codes of the left and the right button differ and the code of the left button
  is not zero.
\<close>

theorem event_turns_on_at_most_one_flag:
  assumes "step K f ev = Some f'"
    and "FTR_BUTTON_LEFT K \<noteq> FTR_BUTTON_RIGHT K" and "FTR_BUTTON_LEFT K \<noteq> 0"
  shows "turned_on f f' \<le> 1"
proof (cases ev)
  case (Key k m x y)
  show ?thesis
  proof (cases "k = 113")
    case True
    with Key assms(1) have "f' = f\<lparr>stop_requested := True\<rparr>"
      by (simp add: event_key_q)
    then show ?thesis by (simp add: turned_on_def)
  next
    case False
    with Key assms(1) event_key_flags [of K f k m x y f'] show ?thesis
      by (simp add: turned_on_def)
  qed
next
  case (Button k m x y)
  with assms(1) have "event_button K f k m x y = Some f'" by simp
  then show ?thesis using assms(2,3) by (rule event_button_flags)
next
  case (Motion b m x y)
  with assms(1) have "drag_flags f' = drag_flags f" by (simp add: event_motion_flags)
  then show ?thesis by (simp add: turned_on_def drag_flags_def)
qed

theorem event_turns_on_at_most_one_flag_witness:
  "step example_constants (main_state [] zero_state) (Button 256 0 100 100) \<noteq> None
   \<and> FTR_BUTTON_LEFT example_constants \<noteq> FTR_BUTTON_RIGHT example_constants
   \<and> FTR_BUTTON_LEFT example_constants \<noteq> 0
   \<and> turned_on (main_state [] zero_state)
        (the (step example_constants (main_state [] zero_state) (Button 256 0 100 100))) \<le> 1"
proof -
  let ?f = "main_state [] zero_state"
  obtain f' where s: "step example_constants ?f (Button 256 0 100 100) = Some f'"
    by (simp add: handler_defs)
  have c: "FTR_BUTTON_LEFT example_constants \<noteq> FTR_BUTTON_RIGHT example_constants"
    "FTR_BUTTON_LEFT example_constants \<noteq> 0"
    by (simp_all add: example_constants_def)
  from event_turns_on_at_most_one_flag [OF s c] s c show ?thesis by simp
qed

theorem drag_flags_exclusive_counterexample:
  "map_option drag_flags (run example_constants (main_state [] zero_state)
     [Button 1024 0 100 100, Button 256 0 100 100]) = Some (True, True, False)"
  by (simp add: handler_defs)

text \<open>
  C9, as the source has it. The key handler returns at once on \<open>'q'\<close>, with the viewer
  state as it was. On every other key it ends by clearing \<^verbatim>\<open>dragging_window_point\<close>
  and \<^verbatim>\<open>dragging_image_point\<close>; on \<open>'c'\<close> it clears \<^verbatim>\<open>dragging_background\<close> as well.
\<close>

theorem key_clears_point_drag_flags:
  "event_key K f k m x y = Some f' \<Longrightarrow>
     (k = 113 \<longrightarrow> userdata f' = userdata f)
     \<and> (k \<noteq> 113 \<longrightarrow> \<not> dragging_window_point (userdata f')
                     \<and> \<not> dragging_image_point (userdata f'))
     \<and> (k = 99 \<longrightarrow> \<not> dragging_background (userdata f'))"
  using event_key_flags [of K f k m x y f'] by (auto simp: event_key_q)

theorem key_clears_point_drag_flags_witness:
  "event_key example_constants all_dragging 106 0 0 0 \<noteq> None
   \<and> \<not> dragging_window_point (userdata (the (event_key example_constants all_dragging 106 0 0 0)))
   \<and> \<not> dragging_image_point (userdata (the (event_key example_constants all_dragging 106 0 0 0)))
   \<and> event_key example_constants all_dragging 99 0 0 0 \<noteq> None
   \<and> drag_flags (the (event_key example_constants all_dragging 99 0 0 0)) = (False, False, False)
   \<and> event_key example_constants all_dragging 113 0 0 0 \<noteq> None
   \<and> userdata (the (event_key example_constants all_dragging 113 0 0 0)) = userdata all_dragging"
proof -
  obtain f1 where s1: "event_key example_constants all_dragging 106 0 0 0 = Some f1"
    by (simp add: all_dragging_def handler_defs)
  obtain f2 where s2: "event_key example_constants all_dragging 99 0 0 0 = Some f2"
    by (simp add: all_dragging_def handler_defs)
  obtain f3 where s3: "event_key example_constants all_dragging 113 0 0 0 = Some f3"
    by (simp add: all_dragging_def handler_defs)
  from key_clears_point_drag_flags [OF s1] key_clears_point_drag_flags [OF s2]
    key_clears_point_drag_flags [OF s3] s1 s2 s3
  show ?thesis by (simp add: drag_flags_def)
qed

theorem key_event_flags_counterexample:
  "map_option drag_flags (run example_constants (main_state [] zero_state)
     [Button 256 0 0 0, Key 106 0 0 0]) = Some (False, False, True)
   \<and> map_option drag_flags (run example_constants (main_state [] zero_state)
     [Button 256 0 100 100, Key 113 0 0 0]) = Some (True, False, False)"
  by (simp add: handler_defs)

subsection \<open>The zoom about the window centre\<close>

lemma event_key_plus:
  assumes "FTR_KEY_DOWN K \<noteq> 43" "FTR_KEY_UP K \<noteq> 43" "FTR_KEY_RIGHT K \<noteq> 43"
    "FTR_KEY_LEFT K \<noteq> 43"
  shows "event_key K f 43 m x y =
     (case change_view_scale (userdata f) (ftr_w f sdiv 2) (ftr_h f sdiv 2) ZOOM_FACTOR of
        None \<Rightarrow> None
      | Some e \<Rightarrow> Some (f\<lparr>userdata := e\<lparr>dragging_window_point := False,
                                          dragging_image_point := False\<rparr>,
                          changed := 1\<rparr>))"
  using assms
  by (simp add: event_key_def when_def on_e_def on_e_opt_def split: option.splits)

text \<open>
  C7. Pressing \<open>'+'\<close> multiplies the scale by \<open>ZOOM_FACTOR\<close> and sets the offset so
  that the view point that was shown at the window point \<open>(w/2, h/2)\<close> before the key
  is shown there after it. The scale of the state is not zero (the invariant of the
  transform), and no arrow key has the code of \<open>'+'\<close>.
\<close>

theorem zoom_in_keeps_window_center:
  assumes "FTR_KEY_DOWN K \<noteq> 43" "FTR_KEY_UP K \<noteq> 43" "FTR_KEY_RIGHT K \<noteq> 43"
    "FTR_KEY_LEFT K \<noteq> 43"
    and "scale (userdata f) \<noteq> 0"
  shows "\<exists>f' v. event_key K f 43 m x y = Some f'
      \<and> scale (userdata f') = scale (userdata f) * ZOOM_FACTOR
      \<and> map_view_to_window (userdata f) v = window_center f
      \<and> (\<forall>u. map_view_to_window (userdata f) u = window_center f \<longrightarrow> u = v)
      \<and> map_view_to_window (userdata f') v = window_center f"
proof -
  define X where "X = window_center f"
  define v where
    "v = ((fst X - fst (offset (userdata f))) / scale (userdata f),
          (snd X - snd (offset (userdata f))) / scale (userdata f))"
  define e' where
    "e' = (userdata f)\<lparr>scale := scale (userdata f) * ZOOM_FACTOR,
             offset := (- fst v * (scale (userdata f) * ZOOM_FACTOR) + fst X,
                        - snd v * (scale (userdata f) * ZOOM_FACTOR) + snd X)\<rparr>"
  have cvs: "change_view_scale (userdata f) (ftr_w f sdiv 2) (ftr_h f sdiv 2) ZOOM_FACTOR = Some e'"
    using assms(5)
    by (simp add: change_view_scale_def map_window_to_view_def fdiv_def Let_def e'_def v_def
        X_def window_center_def)
  let ?f' = "f\<lparr>userdata := e'\<lparr>dragging_window_point := False, dragging_image_point := False\<rparr>,
               changed := 1\<rparr>"
  have 1: "event_key K f 43 m x y = Some ?f'"
    using event_key_plus [OF assms(1-4)] cvs by simp
  have 2: "scale (userdata ?f') = scale (userdata f) * ZOOM_FACTOR" by (simp add: e'_def)
  have 3: "map_view_to_window (userdata f) v = X"
    using assms(5) by (simp add: map_view_to_window_def v_def)
  have 4: "u = v" if "map_view_to_window (userdata f) u = X" for u
  proof -
    from that have "fst (offset (userdata f)) + scale (userdata f) * fst u = fst X"
      "snd (offset (userdata f)) + scale (userdata f) * snd u = snd X"
      by (simp_all add: map_view_to_window_def prod_eq_iff)
    then have "fst u = fst v" "snd u = snd v"
      using assms(5) by (simp_all add: v_def field_simps)
    then show ?thesis by (simp add: prod_eq_iff)
  qed
  have 5: "map_view_to_window (userdata ?f') v = X"
    by (simp add: map_view_to_window_def e'_def algebra_simps)
  show ?thesis
    using 1 2 3 4 5 unfolding X_def by blast
qed


theorem zoom_in_keeps_window_center_witness:
  "FTR_KEY_DOWN example_constants \<noteq> 43 \<and> FTR_KEY_UP example_constants \<noteq> 43
   \<and> FTR_KEY_RIGHT example_constants \<noteq> 43 \<and> FTR_KEY_LEFT example_constants \<noteq> 43
   \<and> scale (userdata (main_state [] zero_state)) = 1
   \<and> window_center (main_state [] zero_state) = (400, 300)
   \<and> (\<exists>f' v. event_key example_constants (main_state [] zero_state) 43 0 0 0 = Some f'
        \<and> scale (userdata f') = ZOOM_FACTOR
        \<and> map_view_to_window (userdata (main_state [] zero_state)) v = (400, 300)
        \<and> map_view_to_window (userdata f') v = (400, 300))"
proof -
  let ?f = "main_state [] zero_state"
  have k: "FTR_KEY_DOWN example_constants \<noteq> 43" "FTR_KEY_UP example_constants \<noteq> 43"
    "FTR_KEY_RIGHT example_constants \<noteq> 43" "FTR_KEY_LEFT example_constants \<noteq> 43"
    by (simp_all add: example_constants_def)
  have s: "scale (userdata ?f) = 1" "scale (userdata ?f) \<noteq> 0"
    by (simp_all add: main_state_def center_view_def)
  have c: "window_center ?f = (400, 300)"
    by (simp add: window_center_def main_state_def center_view_def signed_divide_int_def)
  from zoom_in_keeps_window_center [OF k s(2), of 0 0 0] k s(1) c show ?thesis
    by (simp only: mult_1) blast
qed

text \<open>
  A handler started in a state with a scale other than zero returns a state, again with
  a scale other than zero: no state that the viewer reaches from its initial state
  divides by zero in a handler.
\<close>

lemma exec_total:
  assumes "P s" "\<forall>S \<in> set Ss. \<forall>t. P t \<longrightarrow> (\<exists>t'. S t = Some t' \<and> P t')"
  shows "\<exists>s'. exec Ss s = Some s' \<and> P s'"
  using assms
proof (induction Ss arbitrary: s)
  case Nil
  then show ?case by (simp only: exec.simps) blast
next
  case (Cons S Ss)
  have "\<forall>t. P t \<longrightarrow> (\<exists>t'. S t = Some t' \<and> P t')"
    using Cons.prems(2) by (meson list.set_intros(1))
  with Cons.prems(1) obtain t where t: "S s = Some t" "P t" by blast
  have rest: "\<forall>S \<in> set Ss. \<forall>t. P t \<longrightarrow> (\<exists>t'. S t = Some t' \<and> P t')"
    using Cons.prems(2) by (meson list.set_intros(2))
  from Cons.IH [OF t(2) rest] obtain s' where "exec Ss t = Some s'" "P s'" by blast
  with t(1) have "exec (S # Ss) s = Some s' \<and> P s'" by (simp only: exec.simps option.case)
  then show ?case by blast
qed

lemma step_total:
  assumes "scale (userdata f) \<noteq> 0"
  shows "\<exists>f'. step K f ev = Some f' \<and> scale (userdata f') \<noteq> 0"
proof (cases ev)
  case (Key k m x y)
  show ?thesis
  proof (cases "k = 113")
    case True
    with Key assms show ?thesis by (simp add: event_key_q)
  next
    case False
    have "\<exists>f'. event_key K f k m x y = Some f' \<and> scale (userdata f') \<noteq> 0"
      unfolding event_key_def
      apply (simp only: False if_False)
      apply (rule exec_total [where P = "\<lambda>t. scale (userdata t) \<noteq> 0"])
       apply (rule assms)
      apply (auto simp: when_def on_e_def on_e_opt_def change_view_scale_def
          map_window_to_view_def fdiv_def change_view_offset_def Let_def ZOOM_FACTOR_def
          center_view_def)
      done
    with Key show ?thesis by simp
  qed
next
  case (Button k m x y)
  have "\<exists>f'. event_button K f k m x y = Some f' \<and> scale (userdata f') \<noteq> 0"
    unfolding event_button_def Let_def
    apply (rule exec_total [where P = "\<lambda>t. scale (userdata t) \<noteq> 0"])
     apply (rule assms)
    apply (auto simp: when_def on_e_def on_e_opt_def change_view_scale_def
        map_window_to_view_def fdiv_def change_view_offset_def Let_def ZOOM_FACTOR_def
        drag_point_in_window_domain_def change_radius_def)
    done
  with Button show ?thesis by simp
next
  case (Motion b m x y)
  have "\<exists>f'. event_motion K f b m x y = Some f' \<and> scale (userdata f') \<noteq> 0"
    unfolding event_motion_def
    apply (rule exec_total [where P = "\<lambda>t. scale (userdata t) \<noteq> 0"])
     apply (rule assms)
    apply (auto simp: when_def on_e_def on_e_opt_def
        map_window_to_view_def fdiv_def change_view_offset_def Let_def
        drag_point_in_window_domain_def)
    done
  with Motion show ?thesis by simp
qed

lemma run_total:
  "scale (userdata f) \<noteq> 0 \<Longrightarrow> \<exists>f'. run K f evs = Some f' \<and> scale (userdata f') \<noteq> 0"
proof (induction evs arbitrary: f)
  case Nil
  then show ?case by simp
next
  case (Cons ev evs)
  from step_total [OF Cons.prems, of K ev] obtain f1 where
    f1: "step K f ev = Some f1" "scale (userdata f1) \<noteq> 0" by blast
  from Cons.IH [OF f1(2)] f1(1) show ?case by simp
qed

lemma main_state_scale: "scale (userdata (main_state pts e0)) = 1"
  by (simp add: main_state_def center_view_def)

lemma reachable_defined:
  "\<exists>f'. run K (main_state pts e0) evs = Some f' \<and> scale (userdata f') \<noteq> 0"
  by (rule run_total) (simp add: main_state_scale)

end
